theory Spec2Isabelle
  imports Complex_Main "HOL-Library.AList"
begin

section \<open>The dispatcher of TaxiAI (src/dispatcher.py)\<close>

text \<open>
  The dispatcher is a Python object with mutable fields. It is modelled by explicit state
  passing: every method takes the dispatcher record and returns the record after the call.
  A method that can raise returns an \<open>outcome\<close>, which keeps the state the object is left
  in when the exception leaves the method. Python dictionaries keep insertion order, and the
  code iterates over them, so they are association lists: \<open>map_of\<close> reads a key,
  \<open>AList.update\<close> stores one (in place when the key exists, at the end otherwise),
  \<open>AList.delete\<close> removes one and \<open>AList.map_entry\<close> mutates the value stored under a
  key. Python floats are modelled by exact reals.
\<close>

subsection \<open>Data\<close>

type_synonym coord = "int \<times> int"

text \<open>Taxi objects, world objects and map nodes are compared by identity only.\<close>

type_synonym taxi_ref = nat
type_synonym world_ref = nat
type_synonym node = nat

datatype py_error = TypeError | IndexError | ValueError | KeyError

text \<open>class FareEntry. The field \<open>taxi\<close> is \<open>-1\<close> while no taxi is allocated.\<close>

record FareEntry =
  origin :: coord
  destination :: coord
  calltime :: int
  price :: real
  taxi :: int
  bidders :: "nat list"

text \<open>
  What the dispatcher reads from its parent world and from the taxi objects it holds
  references to: node lookup, travel-time estimates, and each taxi's \<open>currentLocation\<close>
  and \<open>_path\<close>. The world owns them and changes them between calls, so every method that
  reads them takes the world as it is at the time of the call.
\<close>

record World =
  getNode :: "coord \<Rightarrow> node option"
  travelTime :: "node option \<Rightarrow> node option \<Rightarrow> real"
  currentLocation :: "taxi_ref \<Rightarrow> coord"
  path :: "taxi_ref \<Rightarrow> coord list"

text \<open>The calls the dispatcher makes on its parent world, in the order it makes them.\<close>

datatype parent_call =
  BroadcastFare coord coord real
| AllocateFare coord taxi_ref
| CancelFare coord taxi_ref

type_synonym time_bucket = "(int \<times> FareEntry) list"
type_synonym dest_bucket = "(coord \<times> time_bucket) list"
type_synonym board = "(coord \<times> dest_bucket) list"

text \<open>
  class Dispatcher: \<open>_parent\<close>, \<open>_revenue\<close>, \<open>_taxis\<close>, \<open>_fareBoard\<close> and
  \<open>fareAmountConstraint\<close> (taxi index to number of fares won); \<open>calls\<close> records the
  calls made on the parent.
\<close>

record Dispatcher =
  parent :: world_ref
  revenue :: real
  taxis :: "taxi_ref list"
  fareBoard :: board
  fareAmountConstraint :: "(nat \<times> nat) list"
  calls :: "parent_call list"

datatype outcome = Done Dispatcher | Raised py_error Dispatcher

definition initDispatcher :: "world_ref \<Rightarrow> Dispatcher" where
  "initDispatcher p =
     \<lparr>parent = p, revenue = 0, taxis = [], fareBoard = [], fareAmountConstraint = [], calls = []\<rparr>"

subsection \<open>Python primitives\<close>

text \<open>\<open>xs[i]\<close>: a negative index counts from the end, an index out of range raises.\<close>

definition py_index :: "'a list \<Rightarrow> int \<Rightarrow> py_error + 'a" where
  "py_index xs i =
     (if 0 \<le> i \<and> i < int (length xs) then Inr (xs ! nat i)
      else if i < 0 \<and> - int (length xs) \<le> i then Inr (xs ! nat (int (length xs) + i))
      else Inl IndexError)"

text \<open>\<open>xs.index(x)\<close>, used by the code only where \<open>x in xs\<close> has been checked.\<close>

definition list_index :: "'a list \<Rightarrow> 'a \<Rightarrow> nat" where
  "list_index xs x = length (takeWhile (\<lambda>y. y \<noteq> x) xs)"

text \<open>\<open>min(d, key=d.get)\<close>: the first key, in iteration order, whose value is least.\<close>

fun min_from :: "'k \<times> real \<Rightarrow> ('k \<times> real) list \<Rightarrow> 'k" where
  "min_from (bk, bv) [] = bk"
| "min_from (bk, bv) ((k, v) # rest) =
     (if v < bv then min_from (k, v) rest else min_from (bk, bv) rest)"

definition min_key :: "('k \<times> real) list \<Rightarrow> py_error + 'k" where
  "min_key al = (case al of [] \<Rightarrow> Inl ValueError | kv # rest \<Rightarrow> Inr (min_from kv rest))"

text \<open>\<open>min(d.values())\<close>.\<close>

definition min_value :: "('k \<times> nat) list \<Rightarrow> py_error + nat" where
  "min_value al =
     (case al of [] \<Rightarrow> Inl ValueError | kv # rest \<Rightarrow> Inr (fold min (map snd rest) (snd kv)))"

text \<open>Reading and mutating \<open>_fareBoard[origin][destination][time]\<close>.\<close>

definition lookup2 :: "board \<Rightarrow> coord \<Rightarrow> coord \<Rightarrow> time_bucket option" where
  "lookup2 fb org dst =
     (case map_of fb org of None \<Rightarrow> None | Some dests \<Rightarrow> map_of dests dst)"

definition lookup3 :: "board \<Rightarrow> coord \<Rightarrow> coord \<Rightarrow> int \<Rightarrow> FareEntry option" where
  "lookup3 fb org dst tm =
     (case lookup2 fb org dst of None \<Rightarrow> None | Some ts \<Rightarrow> map_of ts tm)"

definition modEntry :: "board \<Rightarrow> coord \<Rightarrow> coord \<Rightarrow> int \<Rightarrow> (FareEntry \<Rightarrow> FareEntry) \<Rightarrow> board" where
  "modEntry fb org dst tm g = AList.map_entry org (AList.map_entry dst (AList.map_entry tm g)) fb"

subsection \<open>Pricing: \<open>_costFare\<close>\<close>

text \<open>
  The arithmetic of \<open>_costFare\<close> is done here on exact reals, with \<open>0.9\<close> as \<open>9 / 10\<close>.
  The code works on floats: where a test of the loop is decided by less than a rounding
  error, the code can take the other branch.

  \<open>while costSample < maximumCostAllowed - 1: costSample += 1\<close>, entered with a number in
  \<open>costSample\<close>.
\<close>

function capLoop :: "real \<Rightarrow> real \<Rightarrow> real" where
  "capLoop c m = (if c < m then capLoop (c + 1) m else c)"
  by pat_completeness auto
termination
proof (relation "measure (\<lambda>(c, m). nat \<lceil>m - c\<rceil>)")
  show "wf (measure (\<lambda>(c, m). nat \<lceil>m - c\<rceil>))" by simp
next
  fix c m :: real
  assume "c < m"
  then have "\<lceil>m - (c + 1)\<rceil> < \<lceil>m - c\<rceil>" and "0 < \<lceil>m - c\<rceil>"
    by linarith+
  then show "((c + 1, m), (c, m)) \<in> measure (\<lambda>(c, m). nat \<lceil>m - c\<rceil>)"
    by simp
qed

declare capLoop.simps [simp del]

text \<open>
  \<open>for i in range(200)\<close> with \<open>costSample\<close> as the loop state, \<open>None\<close> at first. In the
  \<open>else\<close> branch the \<open>while\<close> compares \<open>costSample\<close> with a float; when it is still
  \<open>None\<close>, Python 3 raises TypeError.
\<close>

fun costLoop :: "real \<Rightarrow> nat list \<Rightarrow> real option \<Rightarrow> py_error + real option" where
  "costLoop T [] cs = Inr cs"
| "costLoop T (i # rest) cs =
     (if real i + T / (9 / 10) < 10 * T - 1 then costLoop T rest (Some (real i + T / (9 / 10)))
      else (case cs of
              None \<Rightarrow> Inl TypeError
            | Some c \<Rightarrow> Inr (Some (capLoop c (10 * T - 1)))))"

definition priceFor :: "real \<Rightarrow> py_error + real" where
  "priceFor T =
     (case (if T > 0 then costLoop T [0..<200] None else Inr None) of
        Inl e \<Rightarrow> Inl e
      | Inr None \<Rightarrow> Inr 150
      | Inr (Some c) \<Rightarrow> (if c > 0 then Inr c else Inr 150))"

definition costFare :: "World \<Rightarrow> FareEntry \<Rightarrow> py_error + real" where
  "costFare w fare =
     priceFor (travelTime w (getNode w (origin fare)) (getNode w (destination fare)))"

subsection \<open>Knowledge base and real-time events\<close>

definition addTaxi :: "Dispatcher \<Rightarrow> taxi_ref \<Rightarrow> Dispatcher" where
  "addTaxi d tx = (if tx \<notin> set (taxis d) then d\<lparr>taxis := taxis d @ [tx]\<rparr> else d)"

definition newFare :: "Dispatcher \<Rightarrow> world_ref \<Rightarrow> coord \<Rightarrow> coord \<Rightarrow> int \<Rightarrow> Dispatcher" where
  "newFare d p org dst tm =
     (if p = parent d then
        let fare = \<lparr>origin = org, destination = dst, calltime = tm, price = 0, taxi = - 1,
                    bidders = []\<rparr>;
            fb = (case map_of (fareBoard d) org of
                    Some dests \<Rightarrow>
                      (case map_of dests dst of
                         None \<Rightarrow> AList.map_entry org (AList.update dst []) (fareBoard d)
                       | Some ts \<Rightarrow> fareBoard d)
                  | None \<Rightarrow> AList.update org [(dst, [])] (fareBoard d))
        in d\<lparr>fareBoard := AList.map_entry org (AList.map_entry dst (AList.update tm fare)) fb\<rparr>
      else d)"

text \<open>
  \<open>handover\<close>: the taxi is made known, the fare is registered through \<open>newFare\<close>, then its
  \<open>taxi\<close> and \<open>price\<close> are set. \<open>fareAmountConstraint\<close> is not touched.
\<close>

definition handover ::
  "Dispatcher \<Rightarrow> world_ref \<Rightarrow> coord \<Rightarrow> coord \<Rightarrow> int \<Rightarrow> taxi_ref \<Rightarrow> real \<Rightarrow> Dispatcher" where
  "handover d p org dst tm tx pr =
     (if parent d = p then
        let d1 = (if tx \<notin> set (taxis d) then d\<lparr>taxis := taxis d @ [tx]\<rparr> else d);
            d2 = newFare d1 p org dst tm;
            d3 = d2\<lparr>fareBoard := modEntry (fareBoard d2) org dst tm
                        (\<lambda>f. f\<lparr>taxi := int (list_index (taxis d2) tx)\<rparr>)\<rparr>
        in d3\<lparr>fareBoard := modEntry (fareBoard d3) org dst tm (\<lambda>f. f\<lparr>price := pr\<rparr>)\<rparr>
      else d)"

text \<open>
  The two \<open>if len(...) == 0: del ...\<close> statements that end \<open>cancelFare\<close>; they run
  whenever the origin and the destination are keys of the board.
\<close>

definition pruneBuckets :: "board \<Rightarrow> coord \<Rightarrow> coord \<Rightarrow> board" where
  "pruneBuckets fb org dst =
     (let fb1 = (case lookup2 fb org dst of
                   Some [] \<Rightarrow> AList.map_entry org (AList.delete dst) fb
                 | _ \<Rightarrow> fb)
      in (case map_of fb1 org of Some [] \<Rightarrow> AList.delete org fb1 | _ \<Rightarrow> fb1))"

text \<open>
  \<open>cancelFare\<close>. The taxi to inform is \<open>self._taxis[entry.taxi]\<close>, read before the entry
  is deleted; an IndexError there leaves the board as it was.
\<close>

definition cancelFare :: "Dispatcher \<Rightarrow> world_ref \<Rightarrow> coord \<Rightarrow> coord \<Rightarrow> int \<Rightarrow> outcome" where
  "cancelFare d p org dst tm =
     (if p = parent d then
        (case map_of (fareBoard d) org of
           None \<Rightarrow> Done d
         | Some dests \<Rightarrow>
             (case map_of dests dst of
                None \<Rightarrow> Done d
              | Some ts \<Rightarrow>
                  (case map_of ts tm of
                     None \<Rightarrow> Done (d\<lparr>fareBoard := pruneBuckets (fareBoard d) org dst\<rparr>)
                   | Some f \<Rightarrow>
                       (case py_index (taxis d) (taxi f) of
                          Inl e \<Rightarrow> Raised e d
                        | Inr tx \<Rightarrow>
                            Done (d\<lparr>calls := calls d @ [CancelFare org tx],
                                    fareBoard := pruneBuckets
                                      (AList.map_entry org (AList.map_entry dst (AList.delete tm))
                                         (fareBoard d)) org dst\<rparr>)))))
      else Done d)"

text \<open>
  \<open>fareBid\<close>. The two nested \<open>for\<close> loops run over \<open>.keys()\<close> of the destination
  dictionary and of each time dictionary, in their iteration order, and stop at the first
  entry whose \<open>taxi\<close> is \<open>-1\<close>; \<open>openTime\<close> is the inner loop over the given keys and
  \<open>openFare\<close> the outer one. The bidder's index is appended to that entry.
\<close>

fun openTime :: "time_bucket \<Rightarrow> int list \<Rightarrow> int option" where
  "openTime ts [] = None"
| "openTime ts (tm # rest) =
     (case map_of ts tm of
        Some f \<Rightarrow> (if taxi f = - 1 then Some tm else openTime ts rest)
      | None \<Rightarrow> openTime ts rest)"

fun openFare :: "dest_bucket \<Rightarrow> coord list \<Rightarrow> (coord \<times> int) option" where
  "openFare dests [] = None"
| "openFare dests (dst # rest) =
     (case map_of dests dst of
        None \<Rightarrow> openFare dests rest
      | Some ts \<Rightarrow>
          (case openTime ts (map fst ts) of
             Some tm \<Rightarrow> Some (dst, tm)
           | None \<Rightarrow> openFare dests rest))"

definition fareBid :: "Dispatcher \<Rightarrow> coord \<Rightarrow> taxi_ref \<Rightarrow> Dispatcher" where
  "fareBid d org tx =
     (if tx \<in> set (taxis d) then
        (case map_of (fareBoard d) org of
           None \<Rightarrow> d
         | Some dests \<Rightarrow>
             (case openFare dests (map fst dests) of
                None \<Rightarrow> d
              | Some (dst, tm) \<Rightarrow>
                  d\<lparr>fareBoard := modEntry (fareBoard d) org dst tm
                       (\<lambda>f. f\<lparr>bidders := bidders f @ [list_index (taxis d) tx]\<rparr>)\<rparr>))
      else d)"

definition recvPayment :: "Dispatcher \<Rightarrow> world_ref \<Rightarrow> real \<Rightarrow> Dispatcher" where
  "recvPayment d p amount = (if parent d = p then d\<lparr>revenue := revenue d + amount\<rparr> else d)"

subsection \<open>Allocation: \<open>_allocateFare\<close>\<close>

text \<open>
  The stuck-taxi loop (lines 235 to 246). For each bidder the two travel times are read
  with the current value of \<open>fareNode\<close>; then every known taxi's path is tested, and a
  match sets \<open>fareNode\<close> to \<open>None\<close>. The loop returns the final \<open>fareNode\<close>. The sum
  \<open>travelToOrigin + travelToDestination\<close> is the exact sum; the code adds floats, which
  gives the same number when the travel times are whole numbers, as they are in every
  world used below, and can differ by rounding otherwise.
\<close>

definition pathBlocks :: "World \<Rightarrow> coord \<Rightarrow> coord \<Rightarrow> real \<Rightarrow> real \<Rightarrow> taxi_ref \<Rightarrow> bool" where
  "pathBlocks w org dst travelToOrigin travelToDestination t =
     ((length (path w t) > 0 \<and> real (length (path w t)) = travelToOrigin
         \<and> org = last (path w t)) \<or>
      (length (path w t) > 0 \<and> real (length (path w t)) = travelToOrigin + travelToDestination
         \<and> dst = last (path w t)))"

fun guardTaxis ::
  "World \<Rightarrow> coord \<Rightarrow> coord \<Rightarrow> real \<Rightarrow> real \<Rightarrow> taxi_ref list \<Rightarrow> node option \<Rightarrow> node option" where
  "guardTaxis w org dst tto ttd [] fareNode = fareNode"
| "guardTaxis w org dst tto ttd (t # rest) fareNode =
     guardTaxis w org dst tto ttd rest (if pathBlocks w org dst tto ttd t then None else fareNode)"

fun guardBidders ::
  "World \<Rightarrow> taxi_ref list \<Rightarrow> coord \<Rightarrow> coord \<Rightarrow> nat list \<Rightarrow> node option \<Rightarrow> py_error + node option" where
  "guardBidders w txs org dst [] fareNode = Inr fareNode"
| "guardBidders w txs org dst (b # rest) fareNode =
     (if b < length txs then
        let bidderNode = getNode w (currentLocation w (txs ! b));
            travelToOrigin = travelTime w bidderNode fareNode;
            travelToDestination = travelTime w bidderNode (getNode w dst)
        in guardBidders w txs org dst rest
             (guardTaxis w org dst travelToOrigin travelToDestination txs fareNode)
      else Inl IndexError)"

text \<open>
  Lines 252 to 260: the bidders are split into \<open>constraintFares\<close> (those with an entry in
  \<open>fareAmountConstraint\<close>) and \<open>initialFares\<close> (the others), each a dictionary from the
  bidder to \<open>travelTime(bidderNode, fareNode)\<close>.
\<close>

fun splitBidders ::
  "World \<Rightarrow> Dispatcher \<Rightarrow> node option \<Rightarrow> nat list \<Rightarrow> (nat \<times> real) list \<times> (nat \<times> real) list
     \<Rightarrow> py_error + ((nat \<times> real) list \<times> (nat \<times> real) list)" where
  "splitBidders w d fareNode [] acc = Inr acc"
| "splitBidders w d fareNode (i # rest) (constraintFares, initialFares) =
     (if i < length (taxis d) then
        let bidderNode = getNode w (currentLocation w (taxis d ! i)) in
        (case map_of (fareAmountConstraint d) i of
           Some c \<Rightarrow> splitBidders w d fareNode rest
                       (AList.update i (travelTime w bidderNode fareNode) constraintFares,
                        initialFares)
         | None \<Rightarrow> splitBidders w d fareNode rest
                     (constraintFares,
                      AList.update i (travelTime w bidderNode fareNode) initialFares))
      else Inl IndexError)"

text \<open>Lines 277 to 281: the travel times of the valid bidders.\<close>

fun travelTimesOf ::
  "World \<Rightarrow> Dispatcher \<Rightarrow> node option \<Rightarrow> nat list \<Rightarrow> (nat \<times> real) list
     \<Rightarrow> py_error + (nat \<times> real) list" where
  "travelTimesOf w d fareNode [] travelTimes = Inr travelTimes"
| "travelTimesOf w d fareNode (i # rest) travelTimes =
     (if i < length (taxis d) then
        travelTimesOf w d fareNode rest
          (AList.update i
             (travelTime w (getNode w (currentLocation w (taxis d ! i))) fareNode) travelTimes)
      else Inl IndexError)"

text \<open>Lines 250 to 290: the choice among more than one bidder.\<close>

definition chooseAmong :: "World \<Rightarrow> Dispatcher \<Rightarrow> node option \<Rightarrow> nat list \<Rightarrow> py_error + nat" where
  "chooseAmong w d fareNode bs =
     (case splitBidders w d fareNode bs ([], []) of
        Inl e \<Rightarrow> Inl e
      | Inr (constraintFares, initialFares) \<Rightarrow>
          if initialFares \<noteq> [] then min_key initialFares
          else
            (case min_value (fareAmountConstraint d) of
               Inl e \<Rightarrow> Inl e
             | Inr minFareAmount \<Rightarrow>
                 let lowestFares =
                       map fst (filter (\<lambda>(i, j). j = minFareAmount) (fareAmountConstraint d));
                     validBidders =
                       filter (\<lambda>x. x \<in> set lowestFares) (map fst constraintFares)
                 in if length validBidders > 1 then
                      (case travelTimesOf w d fareNode validBidders [] of
                         Inl e \<Rightarrow> Inl e
                       | Inr travelTimes \<Rightarrow> min_key travelTimes)
                    else if length validBidders > 0 then Inr (validBidders ! 0)
                    else min_key constraintFares))"

text \<open>
  Lines 296 to 304: the entry's \<open>taxi\<close> is set, the parent is told, the winner's count is
  incremented or set to 1.
\<close>

definition commitFare :: "Dispatcher \<Rightarrow> coord \<Rightarrow> coord \<Rightarrow> int \<Rightarrow> int \<Rightarrow> outcome" where
  "commitFare d org dst tm allocatedTaxi =
     (if allocatedTaxi \<ge> 0 then
        let d1 = d\<lparr>fareBoard := modEntry (fareBoard d) org dst tm (\<lambda>f. f\<lparr>taxi := allocatedTaxi\<rparr>)\<rparr>
        in (case py_index (taxis d) allocatedTaxi of
              Inl e \<Rightarrow> Raised e d1
            | Inr tx \<Rightarrow>
                Done (d1\<lparr>calls := calls d1 @ [AllocateFare org tx],
                         fareAmountConstraint :=
                           (case map_of (fareAmountConstraint d) (nat allocatedTaxi) of
                              Some c \<Rightarrow> AList.update (nat allocatedTaxi) (c + 1)
                                          (fareAmountConstraint d)
                            | None \<Rightarrow> AList.update (nat allocatedTaxi) 1
                                        (fareAmountConstraint d))\<rparr>))
      else Done d)"

text \<open>
  \<open>_allocateFare\<close>. \<open>fareNode is not None\<close> is tested once, before the stuck-taxi loop;
  nothing tests \<open>fareNode\<close> after the loop has run.
\<close>

definition allocateFare :: "World \<Rightarrow> Dispatcher \<Rightarrow> coord \<Rightarrow> coord \<Rightarrow> int \<Rightarrow> outcome" where
  "allocateFare w d org dst tm =
     (case lookup3 (fareBoard d) org dst tm of
        None \<Rightarrow> Raised KeyError d
      | Some f \<Rightarrow>
          if length (taxis d) > 0 \<and> length (fareBoard d) > 0 then
            (case getNode w org of
               None \<Rightarrow> Done d
             | Some n \<Rightarrow>
                 (case guardBidders w (taxis d) org dst (bidders f) (Some n) of
                    Inl e \<Rightarrow> Raised e d
                  | Inr fareNode \<Rightarrow>
                      (case (if length (bidders f) > 1 then chooseAmong w d fareNode (bidders f)
                             else (case bidders f of [] \<Rightarrow> Inl IndexError | b # rest \<Rightarrow> Inr b)) of
                         Inl e \<Rightarrow> Raised e d
                       | Inr a \<Rightarrow> commitFare d org dst tm (int a))))
          else Done d)"

subsection \<open>The tick: \<open>clockTick\<close>\<close>

text \<open>
  The body of the innermost loop, then the three loops: origins and destinations in the
  dictionaries' iteration order, times through \<open>sorted(list(...keys()))\<close>. The revenue
  report printed first changes nothing and is left out. An exception ends the tick.
\<close>

definition tickFare :: "World \<Rightarrow> Dispatcher \<Rightarrow> coord \<Rightarrow> coord \<Rightarrow> int \<Rightarrow> outcome" where
  "tickFare w d org dst tm =
     (case lookup3 (fareBoard d) org dst tm of
        None \<Rightarrow> Raised KeyError d
      | Some f \<Rightarrow>
          if price f = 0 then
            (case costFare w f of
               Inl e \<Rightarrow> Raised e d
             | Inr p \<Rightarrow>
                 Done (d\<lparr>fareBoard := modEntry (fareBoard d) org dst tm (\<lambda>f. f\<lparr>price := p\<rparr>),
                         calls := calls d @ [BroadcastFare org dst p]\<rparr>))
          else if taxi f < 0 \<and> length (bidders f) > 0 then allocateFare w d org dst tm
          else Done d)"

fun tickTimes :: "World \<Rightarrow> Dispatcher \<Rightarrow> coord \<Rightarrow> coord \<Rightarrow> int list \<Rightarrow> outcome" where
  "tickTimes w d org dst [] = Done d"
| "tickTimes w d org dst (tm # rest) =
     (case tickFare w d org dst tm of
        Done d1 \<Rightarrow> tickTimes w d1 org dst rest
      | Raised e d1 \<Rightarrow> Raised e d1)"

fun tickDests :: "World \<Rightarrow> Dispatcher \<Rightarrow> coord \<Rightarrow> coord list \<Rightarrow> outcome" where
  "tickDests w d org [] = Done d"
| "tickDests w d org (dst # rest) =
     (case lookup2 (fareBoard d) org dst of
        None \<Rightarrow> Raised KeyError d
      | Some ts \<Rightarrow>
          (case tickTimes w d org dst (sort (map fst ts)) of
             Done d1 \<Rightarrow> tickDests w d1 org rest
           | Raised e d1 \<Rightarrow> Raised e d1))"

fun tickOrigins :: "World \<Rightarrow> Dispatcher \<Rightarrow> coord list \<Rightarrow> outcome" where
  "tickOrigins w d [] = Done d"
| "tickOrigins w d (org # rest) =
     (case map_of (fareBoard d) org of
        None \<Rightarrow> Raised KeyError d
      | Some dests \<Rightarrow>
          (case tickDests w d org (map fst dests) of
             Done d1 \<Rightarrow> tickOrigins w d1 rest
           | Raised e d1 \<Rightarrow> Raised e d1))"

definition clockTick :: "World \<Rightarrow> Dispatcher \<Rightarrow> world_ref \<Rightarrow> outcome" where
  "clockTick w d p =
     (if parent d = p then tickOrigins w d (map fst (fareBoard d)) else Done d)"

subsection \<open>Sequences of events\<close>

text \<open>
  Bids, ticks and payments, as the world delivers them. A tick carries the world as it is
  when the tick runs. The dispatcher object outlives an exception, so the next event
  starts from the state the exception left.
\<close>

datatype event = Bid coord taxi_ref | Tick world_ref World | Payment world_ref real

definition stateOf :: "outcome \<Rightarrow> Dispatcher" where
  "stateOf r = (case r of Done d \<Rightarrow> d | Raised e d \<Rightarrow> d)"

fun deliver :: "Dispatcher \<Rightarrow> event \<Rightarrow> Dispatcher" where
  "deliver d (Bid org tx) = fareBid d org tx"
| "deliver d (Tick p w) = stateOf (clockTick w d p)"
| "deliver d (Payment p amount) = recvPayment d p amount"

definition run :: "Dispatcher \<Rightarrow> event list \<Rightarrow> Dispatcher" where
  "run d evs = foldl deliver d evs"

subsection \<open>Notions used to state the properties\<close>

text \<open>
  A call keeps the assigned taxis when every entry that has a taxi before the call still
  exists after it, with the same taxi.
\<close>

definition keepsAssigned :: "Dispatcher \<Rightarrow> Dispatcher \<Rightarrow> bool" where
  "keepsAssigned d d' \<longleftrightarrow>
     (\<forall>org dst tm f. lookup3 (fareBoard d) org dst tm = Some f \<and> 0 \<le> taxi f \<longrightarrow>
        (\<exists>f'. lookup3 (fareBoard d') org dst tm = Some f' \<and> taxi f' = taxi f))"

text \<open>
  A world for examples: the nodes are the points \<open>(x, 0)\<close> with \<open>x \<ge> 0\<close>, the travel
  time between two nodes is their distance, and \<open>-1\<close> when a node is missing.
\<close>

definition lineWorld :: "(taxi_ref \<Rightarrow> coord) \<Rightarrow> (taxi_ref \<Rightarrow> coord list) \<Rightarrow> World" where
  "lineWorld loc pth =
     \<lparr>getNode = (\<lambda>c. if snd c = 0 \<and> 0 \<le> fst c then Some (nat (fst c)) else None),
      travelTime = (\<lambda>a b. case a of None \<Rightarrow> - 1
                       | Some x \<Rightarrow> (case b of None \<Rightarrow> - 1 | Some y \<Rightarrow> \<bar>real x - real y\<bar>)),
      currentLocation = loc, path = pth\<rparr>"

text \<open>A priced fare from \<open>(0, 0)\<close> to \<open>(3, 0)\<close>, called at time 1, with the given bidders.\<close>

definition pricedFare :: "nat list \<Rightarrow> FareEntry" where
  "pricedFare bs =
     \<lparr>origin = (0, 0), destination = (3, 0), calltime = 1, price = 88 / 3, taxi = - 1, bidders = bs\<rparr>"

definition boardOf :: "FareEntry \<Rightarrow> board" where
  "boardOf f = [(origin f, [(destination f, [(calltime f, f)])])]"

text \<open>
  The dispatcher after that fare has been registered, priced and broadcast by a tick and bid
  on: known taxis \<open>txs\<close>, bidders \<open>bs\<close>, fare counts \<open>led\<close>.
\<close>

definition biddingState :: "taxi_ref list \<Rightarrow> nat list \<Rightarrow> (nat \<times> nat) list \<Rightarrow> Dispatcher" where
  "biddingState txs bs led =
     \<lparr>parent = 0, revenue = 0, taxis = txs, fareBoard = boardOf (pricedFare bs),
      fareAmountConstraint = led, calls = [BroadcastFare (0, 0) (3, 0) (88 / 3)]\<rparr>"

text \<open>No origin of the board has an empty destination dictionary or an empty time dictionary.\<close>

definition noEmptyBuckets :: "board \<Rightarrow> bool" where
  "noEmptyBuckets fb \<longleftrightarrow>
     (\<forall>org dests. map_of fb org = Some dests \<longrightarrow>
        dests \<noteq> [] \<and> (\<forall>dst ts. map_of dests dst = Some ts \<longrightarrow> ts \<noteq> []))"

text \<open>
  The fares at one origin in the order in which \<open>fareBid\<close> meets them: destinations in
  the dictionary's iteration order and, within a destination, times in the dictionary's
  iteration order. An entry is open when its \<open>taxi\<close> is \<open>-1\<close>.
\<close>

definition pendingAt :: "dest_bucket \<Rightarrow> (coord \<times> int \<times> FareEntry) list" where
  "pendingAt dests = concat (map (\<lambda>(dst, ts). map (\<lambda>(tm, f). (dst, tm, f)) ts) dests)"

definition isOpen :: "coord \<times> int \<times> FareEntry \<Rightarrow> bool" where
  "isOpen x = (taxi (snd (snd x)) = - 1)"

text \<open>
  The enumeration as the specification words it, not taken from \<open>fareBid\<close>: grouped by
  destination, with the call times of each destination in ascending sorted order.
\<close>

definition pendingSorted :: "dest_bucket \<Rightarrow> (coord \<times> int \<times> FareEntry) list" where
  "pendingSorted dests =
     concat (map (\<lambda>(dst, ts). map (\<lambda>(tm, f). (dst, tm, f)) (sort_key fst ts)) dests)"

text \<open>A Python dictionary holds each key once.\<close>

definition distinctKeys :: "dest_bucket \<Rightarrow> bool" where
  "distinctKeys dests \<longleftrightarrow>
     distinct (map fst dests) \<and> (\<forall>(dst, ts) \<in> set dests. distinct (map fst ts))"

text \<open>Taxi 7 is known; a fare calls at time 5, then another with the same origin and
  destination calls with time 3.\<close>

definition twoFares :: Dispatcher where
  "twoFares =
     newFare (newFare (addTaxi (initDispatcher 0) 7) 0 (0, 0) (3, 0) 5) 0 (0, 0) (3, 0) 3"

definition fareAt :: "int \<Rightarrow> nat list \<Rightarrow> FareEntry" where
  "fareAt tm bs =
     \<lparr>origin = (0, 0), destination = (3, 0), calltime = tm, price = 0, taxi = - 1, bidders = bs\<rparr>"

text \<open>
  \<open>travelTime(bidderNode, fareNode)\<close> for the bidder with index \<open>i\<close>, as \<open>_allocateFare\<close>
  computes it, and the dictionary that assigns it to each of the given bidders.
\<close>

definition bidderTime :: "World \<Rightarrow> Dispatcher \<Rightarrow> node option \<Rightarrow> nat \<Rightarrow> real" where
  "bidderTime w d fareNode i =
     travelTime w (getNode w (currentLocation w (taxis d ! i))) fareNode"

definition timesFor :: "(nat \<Rightarrow> real) \<Rightarrow> nat list \<Rightarrow> (nat \<times> real) list \<Rightarrow> (nat \<times> real) list" where
  "timesFor g xs al = fold (\<lambda>i. AList.update i (g i)) xs al"

text \<open>
  A new dispatcher that knows taxi 8 and then receives one fare, already given to taxi 7,
  by handover.
\<close>

definition handedOver :: Dispatcher where
  "handedOver = handover (addTaxi (initDispatcher 0) 8) 0 (0, 0) (3, 0) 1 7 10"

text \<open>
  The dictionaries of a dispatcher, as association lists, hold each key once: the board at
  its three levels and the dictionary of fare counts.
\<close>

definition distinctTimes :: "time_bucket \<Rightarrow> bool" where
  "distinctTimes ts = distinct (map fst ts)"

definition wfBoard :: "board \<Rightarrow> bool" where
  "wfBoard fb \<longleftrightarrow> distinct (map fst fb) \<and> (\<forall>dests \<in> snd ` set fb. distinctKeys dests)"

definition wfDispatcher :: "Dispatcher \<Rightarrow> bool" where
  "wfDispatcher d \<longleftrightarrow> wfBoard (fareBoard d) \<and> distinct (map fst (fareAmountConstraint d))"

section \<open>Properties\<close>

subsection \<open>Pricing\<close>

lemma capLoop_once: "c < m \<Longrightarrow> m \<le> c + 1 \<Longrightarrow> capLoop c m = c + 1"
  by (subst capLoop.simps, simp, subst capLoop.simps, simp)

text \<open>
  The lemmas of this subsection are about the exact arithmetic of the model. Once a
  sample exists, the rest of the \<open>for\<close> loop returns a price below \<open>10 * T\<close>: the
  sample is always the last trial that passed the test, so the \<open>while\<close> adds 1 exactly
  once.
\<close>

lemma costLoop_from_sample:
  assumes "c = real i - 1 + T / (9 / 10)" and "0 < c" and "c < 10 * T - 1"
  shows "\<exists>p. costLoop T [i..<n] (Some c) = Inr (Some p) \<and> 0 < p \<and> p < 10 * T"
  using assms
proof (induction "n - i" arbitrary: i c)
  case 0
  then show ?case by simp
next
  case (Suc k)
  then have lt: "i < n" by simp
  show ?case
  proof (cases "real i + T / (9 / 10) < 10 * T - 1")
    case True
    have "\<exists>p. costLoop T [Suc i..<n] (Some (real i + T / (9 / 10))) = Inr (Some p)
            \<and> 0 < p \<and> p < 10 * T"
      using Suc.hyps(1)[of "Suc i" "real i + T / (9 / 10)"] Suc.hyps(2) Suc.prems True
      by simp
    then show ?thesis using lt True by (simp add: upt_conv_Cons)
  next
    case False
    have "capLoop c (10 * T - 1) = c + 1"
      using Suc.prems False by (intro capLoop_once) simp_all
    then show ?thesis using lt False Suc.prems by (simp add: upt_conv_Cons)
  qed
qed

lemma priceFor_nonpositive: "T \<le> 0 \<Longrightarrow> priceFor T = Inr 150"
  by (simp add: priceFor_def)

lemma priceFor_bounds:
  assumes "9 / 80 < T"
  shows "\<exists>p. priceFor T = Inr p \<and> 0 < p \<and> p < 10 * T"
proof -
  have T: "0 < T" using assms by simp
  have first: "real 0 + T / (9 / 10) < 10 * T - 1" using assms by simp
  have "\<exists>p. costLoop T [Suc 0..<200] (Some (real 0 + T / (9 / 10))) = Inr (Some p)
          \<and> 0 < p \<and> p < 10 * T"
    using T first by (intro costLoop_from_sample) simp_all
  then obtain p where
    "costLoop T [Suc 0..<200] (Some (real 0 + T / (9 / 10))) = Inr (Some p)" "0 < p" "p < 10 * T"
    by blast
  moreover have "costLoop T [0..<200] None
      = costLoop T [Suc 0..<200] (Some (real 0 + T / (9 / 10)))"
    using first by (simp add: upt_conv_Cons del: of_nat_0)
  ultimately show ?thesis using T by (simp add: priceFor_def)
qed

lemma priceFor_raises: "0 < T \<Longrightarrow> T \<le> 9 / 80 \<Longrightarrow> priceFor T = Inl TypeError"
  by (simp add: priceFor_def upt_conv_Cons)

text \<open>Two values: a travel time of 9 is priced at 89, a travel time of 0 at 150.\<close>

lemma priceFor_values: "priceFor 9 = Inr 89" "priceFor 0 = Inr 150"
  by (simp_all add: priceFor_def upt_conv_Cons capLoop_once)

text \<open>
  C2. The price is \<open>150\<close> for \<open>T \<le> 0\<close> and lies strictly between \<open>0\<close> and \<open>10 * T\<close>
  for \<open>T > 9/80\<close> (\<open>priceFor_nonpositive\<close>, \<open>priceFor_bounds\<close>). For a positive
  travel time of at most \<open>9/80\<close> the first trial of the loop already fails the test while
  \<open>costSample\<close> is still \<open>None\<close>, and the computation does not complete: at
  \<open>T = 1/10\<close> the pricing function raises TypeError instead of returning a price.
\<close>

theorem costFare_small_travel_time_raises:
  "priceFor (1 / 10) = Inl TypeError
   \<and> costFare \<lparr>getNode = (\<lambda>c. Some 0), travelTime = (\<lambda>a b. 1 / 10),
               currentLocation = (\<lambda>t. (0, 0)), path = (\<lambda>t. [])\<rparr>
        \<lparr>origin = (0, 0), destination = (3, 3), calltime = 1, price = 0, taxi = - 1,
         bidders = []\<rparr>
      = Inl TypeError"
  by (simp add: costFare_def priceFor_def upt_conv_Cons)

subsection \<open>The fare board\<close>

lemma stateOf_simps [simp]: "stateOf (Done d) = d" "stateOf (Raised e d) = d"
  by (simp_all add: stateOf_def)

lemma lookup3_modEntry:
  "lookup3 (modEntry fb org dst tm g) org' dst' tm' =
     (if org' = org \<and> dst' = dst \<and> tm' = tm then map_option g (lookup3 fb org dst tm)
      else lookup3 fb org' dst' tm')"
  by (simp add: lookup3_def lookup2_def modEntry_def map_of_map_entry split: option.splits)

subsection \<open>An assigned taxi stays assigned\<close>

lemma keepsAssigned_refl: "keepsAssigned d d"
  by (simp add: keepsAssigned_def)

lemma keepsAssigned_trans: "keepsAssigned d d1 \<Longrightarrow> keepsAssigned d1 d2 \<Longrightarrow> keepsAssigned d d2"
  unfolding keepsAssigned_def by metis

lemma keepsAssigned_same_board: "fareBoard d' = fareBoard d \<Longrightarrow> keepsAssigned d d'"
  by (simp add: keepsAssigned_def)

lemma keepsAssigned_modEntry:
  assumes "fareBoard d' = modEntry (fareBoard d) org dst tm g"
    and "\<And>f. lookup3 (fareBoard d) org dst tm = Some f \<Longrightarrow> 0 \<le> taxi f \<Longrightarrow> taxi (g f) = taxi f"
  shows "keepsAssigned d d'"
  using assms by (auto simp: keepsAssigned_def lookup3_modEntry)

lemma fareBid_keeps: "keepsAssigned d (fareBid d org tx)"
  by (auto simp: fareBid_def keepsAssigned_refl split: option.splits
      intro!: keepsAssigned_modEntry)

lemma recvPayment_keeps: "keepsAssigned d (recvPayment d p amount)"
  by (simp add: recvPayment_def keepsAssigned_same_board)

text \<open>The commit writes the \<open>taxi\<close> field of one entry; the tick only commits on an entry
  whose \<open>taxi\<close> is negative.\<close>

lemma commitFare_keeps:
  assumes "\<And>f. lookup3 (fareBoard d) org dst tm = Some f \<Longrightarrow> taxi f < 0"
  shows "keepsAssigned d (stateOf (commitFare d org dst tm a))"
  using assms
  by (auto simp: commitFare_def Let_def keepsAssigned_refl
      split: sum.splits intro!: keepsAssigned_modEntry)

lemma allocateFare_keeps:
  assumes "\<And>f. lookup3 (fareBoard d) org dst tm = Some f \<Longrightarrow> taxi f < 0"
  shows "keepsAssigned d (stateOf (allocateFare w d org dst tm))"
proof -
  have "keepsAssigned d (stateOf (commitFare d org dst tm a))" for a
    using assms by (rule commitFare_keeps)
  then show ?thesis
    unfolding allocateFare_def
    by (simp add: keepsAssigned_refl split: option.splits sum.splits list.splits)
qed

lemma tickFare_keeps: "keepsAssigned d (stateOf (tickFare w d org dst tm))"
proof (cases "lookup3 (fareBoard d) org dst tm")
  case None
  then show ?thesis by (simp add: tickFare_def keepsAssigned_refl)
next
  case (Some f)
  show ?thesis
  proof (cases "price f = 0")
    case True
    then show ?thesis using Some
      by (auto simp: tickFare_def keepsAssigned_refl split: sum.splits
          intro!: keepsAssigned_modEntry)
  next
    case unpriced: False
    show ?thesis
    proof (cases "taxi f < 0 \<and> length (bidders f) > 0")
      case True
      then have "keepsAssigned d (stateOf (allocateFare w d org dst tm))"
        using Some by (intro allocateFare_keeps) simp
      then show ?thesis using Some unpriced True by (simp add: tickFare_def)
    next
      case False
      then show ?thesis using Some unpriced
        by (auto simp add: tickFare_def keepsAssigned_refl)
    qed
  qed
qed

lemma tickTimes_keeps: "keepsAssigned d (stateOf (tickTimes w d org dst tms))"
proof (induction tms arbitrary: d)
  case Nil
  then show ?case by (simp add: keepsAssigned_refl)
next
  case (Cons tm tms)
  have step: "keepsAssigned d (stateOf (tickFare w d org dst tm))" by (rule tickFare_keeps)
  show ?case
  proof (cases "tickFare w d org dst tm")
    case (Done d1)
    then show ?thesis using step Cons.IH[of d1] by (auto intro: keepsAssigned_trans)
  next
    case (Raised e d1)
    then show ?thesis using step by simp
  qed
qed

lemma tickDests_keeps: "keepsAssigned d (stateOf (tickDests w d org dsts))"
proof (induction dsts arbitrary: d)
  case Nil
  then show ?case by (simp add: keepsAssigned_refl)
next
  case (Cons dst dsts)
  show ?case
  proof (cases "lookup2 (fareBoard d) org dst")
    case None
    then show ?thesis by (simp add: keepsAssigned_refl)
  next
    case (Some ts)
    have step: "keepsAssigned d (stateOf (tickTimes w d org dst (sort (map fst ts))))"
      by (rule tickTimes_keeps)
    show ?thesis
    proof (cases "tickTimes w d org dst (sort (map fst ts))")
      case (Done d1)
      then show ?thesis using Some step Cons.IH[of d1] by (auto intro: keepsAssigned_trans)
    next
      case (Raised e d1)
      then show ?thesis using Some step by simp
    qed
  qed
qed

lemma tickOrigins_keeps: "keepsAssigned d (stateOf (tickOrigins w d orgs))"
proof (induction orgs arbitrary: d)
  case Nil
  then show ?case by (simp add: keepsAssigned_refl)
next
  case (Cons org orgs)
  show ?case
  proof (cases "map_of (fareBoard d) org")
    case None
    then show ?thesis by (simp add: keepsAssigned_refl)
  next
    case (Some dests)
    have step: "keepsAssigned d (stateOf (tickDests w d org (map fst dests)))"
      by (rule tickDests_keeps)
    show ?thesis
    proof (cases "tickDests w d org (map fst dests)")
      case (Done d1)
      then show ?thesis using Some step Cons.IH[of d1] by (auto intro: keepsAssigned_trans)
    next
      case (Raised e d1)
      then show ?thesis using Some step by simp
    qed
  qed
qed

lemma clockTick_keeps: "keepsAssigned d (stateOf (clockTick w d p))"
  by (simp add: clockTick_def tickOrigins_keeps keepsAssigned_refl)

lemma deliver_keeps: "keepsAssigned d (deliver d ev)"
  by (cases ev) (simp_all add: fareBid_keeps clockTick_keeps recvPayment_keeps)

lemma run_keeps: "keepsAssigned d (run d evs)"
  unfolding run_def
proof (induction evs arbitrary: d)
  case Nil
  then show ?case by (simp add: keepsAssigned_refl)
next
  case (Cons ev evs)
  show ?case using deliver_keeps[of d ev] Cons.IH[of "deliver d ev"]
    by (auto intro: keepsAssigned_trans)
qed

text \<open>
  C5. Once the \<open>taxi\<close> field of a fare entry is non-negative, no sequence of bids, ticks
  and payments removes the entry, changes the field or sets it back to \<open>-1\<close>, whatever
  the world looks like at each tick and whether or not a tick ends in an exception.
\<close>

theorem assigned_taxi_never_changes:
  assumes "lookup3 (fareBoard d) org dst tm = Some f" and "0 \<le> taxi f"
  shows "\<exists>f'. lookup3 (fareBoard (run d evs)) org dst tm = Some f' \<and> taxi f' = taxi f"
  using run_keeps[of d evs] assms unfolding keepsAssigned_def by blast

theorem assigned_taxi_never_changes_witness:
  "lookup3 (fareBoard \<lparr>parent = 0, revenue = 0, taxis = [7, 8],
        fareBoard = boardOf ((pricedFare [0])\<lparr>taxi := 0\<rparr>),
        fareAmountConstraint = [(0, 1)], calls = []\<rparr>) (0, 0) (3, 0) 1
     = Some ((pricedFare [0])\<lparr>taxi := 0\<rparr>)
   \<and> 0 \<le> taxi ((pricedFare [0])\<lparr>taxi := 0\<rparr>)
   \<and> (\<exists>f'. lookup3 (fareBoard (run \<lparr>parent = 0, revenue = 0, taxis = [7, 8],
               fareBoard = boardOf ((pricedFare [0])\<lparr>taxi := 0\<rparr>),
               fareAmountConstraint = [(0, 1)], calls = []\<rparr>
             [Bid (0, 0) 8, Tick 0 (lineWorld (\<lambda>t. (1, 0)) (\<lambda>t. [])), Payment 0 150]))
           (0, 0) (3, 0) 1 = Some f'
        \<and> taxi f' = taxi ((pricedFare [0])\<lparr>taxi := 0\<rparr>))"
proof -
  let ?d = "\<lparr>parent = 0, revenue = 0, taxis = [7, 8],
        fareBoard = boardOf ((pricedFare [0])\<lparr>taxi := 0\<rparr>),
        fareAmountConstraint = [(0, 1)], calls = []\<rparr>"
  have h1: "lookup3 (fareBoard ?d) (0, 0) (3, 0) 1 = Some ((pricedFare [0])\<lparr>taxi := 0\<rparr>)"
    by (simp add: lookup3_def lookup2_def boardOf_def pricedFare_def)
  have h2: "0 \<le> taxi ((pricedFare [0])\<lparr>taxi := 0\<rparr>)"
    by simp
  show ?thesis
    using h1 h2 assigned_taxi_never_changes[OF h1 h2] by blast
qed

subsection \<open>Cancelling a fare\<close>

lemma pruneBuckets_if:
  "pruneBuckets fb org dst =
     (let fb1 = (if lookup2 fb org dst = Some [] then AList.map_entry org (AList.delete dst) fb
                 else fb)
      in if map_of fb1 org = Some [] then AList.delete org fb1 else fb1)"
  by (simp add: pruneBuckets_def Let_def split: option.splits list.splits)

lemma pruneBuckets_id:
  assumes "noEmptyBuckets fb"
  shows "pruneBuckets fb org dst = fb"
proof -
  have a: "lookup2 fb org dst \<noteq> Some []"
  proof
    assume "lookup2 fb org dst = Some []"
    then obtain dests where "map_of fb org = Some dests" "map_of dests dst = Some []"
      by (auto simp: lookup2_def split: option.splits)
    with assms show False unfolding noEmptyBuckets_def by blast
  qed
  have b: "map_of fb org \<noteq> Some []"
    using assms unfolding noEmptyBuckets_def by blast
  show ?thesis
    using a b by (simp add: pruneBuckets_if)
qed

lemma lookup3_drop_dest:
  "lookup2 fb org dst = Some [] \<Longrightarrow>
     lookup3 (AList.map_entry org (AList.delete dst) fb) org' dst' tm' = lookup3 fb org' dst' tm'"
  by (cases "org' = org"; cases "dst' = dst")
    (auto simp: lookup3_def lookup2_def map_of_map_entry AList.delete_conv' split: option.splits)

lemma lookup3_drop_origin:
  "map_of fb org = Some [] \<Longrightarrow>
     lookup3 (AList.delete org fb) org' dst' tm' = lookup3 fb org' dst' tm'"
  by (cases "org' = org")
    (auto simp: lookup3_def lookup2_def AList.delete_conv' split: option.splits)

lemma lookup3_pruneBuckets:
  "lookup3 (pruneBuckets fb org dst) org' dst' tm' = lookup3 fb org' dst' tm'"
  by (simp add: pruneBuckets_if Let_def lookup3_drop_dest lookup3_drop_origin)

lemma pruneBuckets_pruned:
  "map_of (pruneBuckets fb org dst) org \<noteq> Some []
   \<and> lookup2 (pruneBuckets fb org dst) org dst \<noteq> Some []"
  by (auto simp: pruneBuckets_if Let_def lookup2_def map_of_map_entry AList.delete_conv'
      split: option.splits if_splits)

lemma lookup3_delete:
  "lookup3 (AList.map_entry org (AList.map_entry dst (AList.delete tm)) fb) org' dst' tm' =
     (if org' = org \<and> dst' = dst \<and> tm' = tm then None else lookup3 fb org' dst' tm')"
  by (simp add: lookup3_def lookup2_def map_of_map_entry AList.delete_conv' split: option.splits)

text \<open>
  A cancel for a key that is not on the board changes nothing and raises nothing, on a
  board without empty dictionaries; every board the dispatcher reaches is one (see the
  invariant below).
\<close>

lemma cancelFare_absent:
  assumes "lookup3 (fareBoard d) org dst tm = None" and "noEmptyBuckets (fareBoard d)"
  shows "cancelFare d p org dst tm = Done d"
  using assms(1) pruneBuckets_id[OF assms(2)]
  by (auto simp: cancelFare_def lookup3_def lookup2_def split: option.splits)

text \<open>
  A cancel for a key on the board, when \<open>self._taxis[entry.taxi]\<close> can be read: the parent
  is asked to inform that taxi, the entry is gone, every other entry is as before and no
  empty dictionary is left at the origin or the destination.
\<close>

lemma cancelFare_present:
  assumes "lookup3 (fareBoard d) org dst tm = Some f" and "py_index (taxis d) (taxi f) = Inr tx"
  shows "\<exists>d'. cancelFare d (parent d) org dst tm = Done d'
           \<and> calls d' = calls d @ [CancelFare org tx]
           \<and> lookup3 (fareBoard d') org dst tm = None
           \<and> (\<forall>org' dst' tm'. (org', dst', tm') \<noteq> (org, dst, tm) \<longrightarrow>
                 lookup3 (fareBoard d') org' dst' tm' = lookup3 (fareBoard d) org' dst' tm')
           \<and> map_of (fareBoard d') org \<noteq> Some []
           \<and> lookup2 (fareBoard d') org dst \<noteq> Some []"
proof -
  obtain dests ts where b: "map_of (fareBoard d) org = Some dests" "map_of dests dst = Some ts"
      "map_of ts tm = Some f"
    using assms(1) by (auto simp: lookup3_def lookup2_def split: option.splits)
  let ?d' = "d\<lparr>calls := calls d @ [CancelFare org tx],
                fareBoard := pruneBuckets
                  (AList.map_entry org (AList.map_entry dst (AList.delete tm)) (fareBoard d))
                  org dst\<rparr>"
  have "cancelFare d (parent d) org dst tm = Done ?d'"
    using b assms(2) by (simp add: cancelFare_def)
  moreover have "lookup3 (fareBoard ?d') org' dst' tm' =
      (if org' = org \<and> dst' = dst \<and> tm' = tm then None else lookup3 (fareBoard d) org' dst' tm')"
    for org' dst' tm'
    by (simp add: lookup3_pruneBuckets lookup3_delete)
  ultimately show ?thesis by (simp add: pruneBuckets_pruned)
qed

text \<open>
  C6. A cancel is to remove the entry under a key that is on the board and to prune the
  dictionaries it empties, and to do nothing for a key that is not there. The first part
  fails on the code. With no known taxi, a fare that has just called is on the board with \<open>taxi = -1\<close>.
  Its cancel reads \<open>self._taxis[-1]\<close> of the empty list before it deletes anything, so
  the exception leaves the entry on the board: the key is present and the entry is not
  removed.
\<close>

theorem cancelFare_no_taxis_keeps_entry:
  "lookup3 (fareBoard (stateOf
       (cancelFare (newFare (initDispatcher 0) 0 (0, 0) (3, 0) 1) 0 (0, 0) (3, 0) 1)))
     (0, 0) (3, 0) 1
   = Some \<lparr>origin = (0, 0), destination = (3, 0), calltime = 1, price = 0, taxi = - 1,
            bidders = []\<rparr>"
  by (simp add: cancelFare_def newFare_def initDispatcher_def py_index_def lookup3_def
      lookup2_def)

text \<open>
  C7. A cancel is to ask the parent to inform the assigned taxi if there is one, and to
  inform no taxi and raise nothing when the fare is unassigned. The second part fails on
  the code: the cancel of an unassigned fare indexes the taxi list with \<open>-1\<close>. With an empty
  list this raises IndexError; with known taxis 7 and 8 the parent is asked to inform the
  last one, taxi 8, which never had the fare.
\<close>

theorem cancelFare_unassigned_indexes_last_taxi:
  "cancelFare (newFare (initDispatcher 0) 0 (0, 0) (3, 0) 1) 0 (0, 0) (3, 0) 1
     = Raised IndexError (newFare (initDispatcher 0) 0 (0, 0) (3, 0) 1)
   \<and> cancelFare (newFare (addTaxi (addTaxi (initDispatcher 0) 7) 8) 0 (0, 0) (3, 0) 1)
        0 (0, 0) (3, 0) 1
     = Done ((addTaxi (addTaxi (initDispatcher 0) 7) 8)\<lparr>calls := [CancelFare (0, 0) 8]\<rparr>)"
  by (simp add: cancelFare_def newFare_def initDispatcher_def py_index_def addTaxi_def
      pruneBuckets_def lookup2_def AList.delete_eq)

subsection \<open>No empty dictionary on the board\<close>

text \<open>
  The board of a new dispatcher has no empty dictionary, and no method leaves one behind,
  whether it returns or raises: \<open>newFare\<close> fills the dictionaries it creates,
  \<open>cancelFare\<close> prunes the ones it empties, and every other method changes entries in
  place or leaves the board alone.
\<close>

lemma map_entry_Nil_iff: "AList.map_entry k h xs = [] \<longleftrightarrow> xs = []"
  by (cases xs) auto

lemma noEmptyBuckets_init: "noEmptyBuckets (fareBoard (initDispatcher p))"
  by (simp add: noEmptyBuckets_def initDispatcher_def)

lemma noEmptyBucketsI:
  assumes "\<And>org dests. map_of fb org = Some dests \<Longrightarrow> dests \<noteq> []"
    and "\<And>org dests dst ts. map_of fb org = Some dests \<Longrightarrow> map_of dests dst = Some ts \<Longrightarrow> ts \<noteq> []"
  shows "noEmptyBuckets fb"
  unfolding noEmptyBuckets_def using assms by blast

lemma noEmptyBucketsD:
  assumes "noEmptyBuckets fb" and "map_of fb org = Some dests"
  shows "dests \<noteq> []" and "map_of dests dst = Some ts \<Longrightarrow> ts \<noteq> []"
  using assms unfolding noEmptyBuckets_def by blast+

lemma noEmptyBuckets_modEntry:
  assumes "noEmptyBuckets fb"
  shows "noEmptyBuckets (modEntry fb org dst tm g)"
proof (rule noEmptyBucketsI)
  fix org' dests'
  assume a: "map_of (modEntry fb org dst tm g) org' = Some dests'"
  then obtain dests where d: "map_of fb org' = Some dests"
    and d': "dests' = (if org' = org then AList.map_entry dst (AList.map_entry tm g) dests else dests)"
    by (auto simp: modEntry_def map_of_map_entry split: option.splits if_splits)
  show "dests' \<noteq> []"
    using noEmptyBucketsD(1)[OF assms d] d' by (simp add: map_entry_Nil_iff)
  fix dst' ts'
  assume b: "map_of dests' dst' = Some ts'"
  then obtain ts where t: "map_of dests dst' = Some ts"
    and t': "ts' = (if org' = org \<and> dst' = dst then AList.map_entry tm g ts else ts)"
    using d' by (auto simp: map_of_map_entry split: option.splits if_splits)
  show "ts' \<noteq> []"
    using noEmptyBucketsD(2)[OF assms d t] t' by (simp add: map_entry_Nil_iff)
qed

lemma noEmptyBuckets_newFare:
  assumes "noEmptyBuckets (fareBoard d)"
  shows "noEmptyBuckets (fareBoard (newFare d p org dst tm))"
proof (cases "p = parent d")
  case False
  then show ?thesis using assms by (simp add: newFare_def)
next
  case True
  let ?fare = "\<lparr>origin = org, destination = dst, calltime = tm, price = 0, taxi = - 1, bidders = []\<rparr>"
  let ?fb' = "fareBoard (newFare d p org dst tm)"
  have other: "map_of ?fb' org' = map_of (fareBoard d) org'" if "org' \<noteq> org" for org'
    using that True
    by (auto simp: newFare_def Let_def map_of_map_entry AList.update_conv' split: option.splits)
  have here: "\<exists>dests'. map_of ?fb' org = Some dests' \<and> dests' \<noteq> []
      \<and> (\<forall>dst' ts'. map_of dests' dst' = Some ts' \<longrightarrow> ts' \<noteq> [])"
  proof (cases "map_of (fareBoard d) org")
    case None
    then show ?thesis using True
      by (auto simp: newFare_def Let_def map_of_map_entry AList.update_conv' split: if_splits)
  next
    case (Some dests)
    note nb = noEmptyBucketsD[OF assms Some]
    show ?thesis
    proof (cases "map_of dests dst")
      case None
      then show ?thesis using True Some nb
        by (auto simp: newFare_def Let_def map_of_map_entry AList.update_conv' map_entry_Nil_iff
            split: if_splits option.splits)
    next
      case inner: (Some ts)
      then show ?thesis using True Some nb
        by (auto simp: newFare_def Let_def map_of_map_entry AList.update_conv' map_entry_Nil_iff
            split: if_splits option.splits)
    qed
  qed
  show ?thesis
  proof (rule noEmptyBucketsI)
    fix org' dests'
    assume a: "map_of ?fb' org' = Some dests'"
    show "dests' \<noteq> []"
    proof (cases "org' = org")
      case True
      with a here show ?thesis by (metis option.inject)
    next
      case False
      with a other noEmptyBucketsD(1)[OF assms] show ?thesis by metis
    qed
    fix dst' ts'
    assume b: "map_of dests' dst' = Some ts'"
    show "ts' \<noteq> []"
    proof (cases "org' = org")
      case True
      with a b here show ?thesis by (metis option.inject)
    next
      case False
      with a b other noEmptyBucketsD(2)[OF assms] show ?thesis by metis
    qed
  qed
qed


lemma map_of_pruneBuckets:
  "map_of (pruneBuckets fb org dst) org' =
     (if org' \<noteq> org then map_of fb org'
      else (case map_of fb org of
              None \<Rightarrow> None
            | Some dests \<Rightarrow>
                (if (if map_of dests dst = Some [] then AList.delete dst dests else dests) = []
                 then None
                 else Some (if map_of dests dst = Some [] then AList.delete dst dests else dests))))"
  by (auto simp: pruneBuckets_if Let_def lookup2_def map_of_map_entry AList.delete_conv'
      split: option.splits)

lemma noEmptyBuckets_pruneBuckets:
  assumes outer: "\<And>org' dests. map_of fb org' = Some dests \<Longrightarrow> org' \<noteq> org \<Longrightarrow> dests \<noteq> []"
    and inner: "\<And>org' dests dst' ts. map_of fb org' = Some dests \<Longrightarrow> map_of dests dst' = Some ts
                  \<Longrightarrow> org' \<noteq> org \<or> dst' \<noteq> dst \<Longrightarrow> ts \<noteq> []"
  shows "noEmptyBuckets (pruneBuckets fb org dst)"
proof (rule noEmptyBucketsI)
  fix org' dests'
  assume a: "map_of (pruneBuckets fb org dst) org' = Some dests'"
  show "dests' \<noteq> []"
  proof (cases "org' = org")
    case True
    then show ?thesis using a by (auto simp: map_of_pruneBuckets split: option.splits if_splits)
  next
    case False
    then show ?thesis using a outer by (simp add: map_of_pruneBuckets)
  qed
  fix dst' ts'
  assume b: "map_of dests' dst' = Some ts'"
  show "ts' \<noteq> []"
  proof (cases "org' = org")
    case False
    then have "map_of fb org' = Some dests'" using a by (simp add: map_of_pruneBuckets)
    then show ?thesis using inner b False by blast
  next
    case True
    then obtain dests where d: "map_of fb org = Some dests"
      and d': "dests' = (if map_of dests dst = Some [] then AList.delete dst dests else dests)"
      using a by (auto simp: map_of_pruneBuckets split: option.splits if_splits)
    show ?thesis
    proof (cases "dst' = dst")
      case False
      then have "map_of dests dst' = Some ts'"
        using b d' by (auto simp: AList.delete_conv' split: if_splits)
      then show ?thesis using inner[OF d] False by blast
    next
      case same: True
      show ?thesis
      proof
        assume "ts' = []"
        then have "map_of dests' dst = Some []" using b same by simp
        then show False using d' by (auto simp: AList.delete_conv' split: if_splits)
      qed
    qed
  qed
qed

lemma noEmptyBuckets_cancelFare:
  assumes "noEmptyBuckets (fareBoard d)"
  shows "noEmptyBuckets (fareBoard (stateOf (cancelFare d p org dst tm)))"
proof -
  let ?fb2 = "AList.map_entry org (AList.map_entry dst (AList.delete tm)) (fareBoard d)"
  have "noEmptyBuckets (pruneBuckets ?fb2 org dst)"
  proof (rule noEmptyBuckets_pruneBuckets)
    fix org' dests
    assume "map_of ?fb2 org' = Some dests" "org' \<noteq> org"
    then show "dests \<noteq> []"
      using noEmptyBucketsD(1)[OF assms, of org' dests] by (simp add: map_of_map_entry)
  next
    fix org' dests dst' ts
    assume a: "map_of ?fb2 org' = Some dests" "map_of dests dst' = Some ts"
      "org' \<noteq> org \<or> dst' \<noteq> dst"
    then obtain dests0 where d0: "map_of (fareBoard d) org' = Some dests0"
      and "dests = (if org' = org then AList.map_entry dst (AList.delete tm) dests0 else dests0)"
      by (auto simp: map_of_map_entry split: option.splits if_splits)
    then have "map_of dests0 dst' = Some ts"
      using a(2,3) by (auto simp: map_of_map_entry split: option.splits if_splits)
    then show "ts \<noteq> []" using noEmptyBucketsD(2)[OF assms d0] by blast
  qed
  then show ?thesis
    using assms pruneBuckets_id[OF assms, of org dst]
    by (auto simp: cancelFare_def split: option.splits sum.splits)
qed

lemma noEmptyBuckets_fareBid:
  "noEmptyBuckets (fareBoard d) \<Longrightarrow> noEmptyBuckets (fareBoard (fareBid d org tx))"
  by (auto simp: fareBid_def noEmptyBuckets_modEntry split: option.splits)

lemma noEmptyBuckets_handover:
  assumes "noEmptyBuckets (fareBoard d)"
  shows "noEmptyBuckets (fareBoard (handover d p org dst tm tx pr))"
proof -
  have "noEmptyBuckets (fareBoard (newFare (d\<lparr>taxis := txs\<rparr>) p org dst tm))" for txs
    using assms by (intro noEmptyBuckets_newFare) simp
  moreover have "noEmptyBuckets (fareBoard (newFare d p org dst tm))"
    using assms by (rule noEmptyBuckets_newFare)
  ultimately show ?thesis
    using assms by (simp add: handover_def Let_def noEmptyBuckets_modEntry)
qed


lemma tickTimes_preserves:
  assumes "\<And>d org dst tm. P d \<Longrightarrow> P (stateOf (tickFare w d org dst tm))" and "P d"
  shows "P (stateOf (tickTimes w d org dst tms))"
  using assms(2)
proof (induction tms arbitrary: d)
  case Nil
  then show ?case by simp
next
  case (Cons tm tms)
  have "P (stateOf (tickFare w d org dst tm))" using Cons.prems by (rule assms(1))
  then show ?case using Cons.IH by (cases "tickFare w d org dst tm") auto
qed

lemma tickDests_preserves:
  assumes "\<And>d org dst tm. P d \<Longrightarrow> P (stateOf (tickFare w d org dst tm))" and "P d"
  shows "P (stateOf (tickDests w d org dsts))"
  using assms(2)
proof (induction dsts arbitrary: d)
  case Nil
  then show ?case by simp
next
  case (Cons dst dsts)
  show ?case
  proof (cases "lookup2 (fareBoard d) org dst")
    case None
    then show ?thesis using Cons.prems by simp
  next
    case (Some ts)
    have "P (stateOf (tickTimes w d org dst (sort (map fst ts))))"
      using assms(1) Cons.prems by (rule tickTimes_preserves)
    then show ?thesis using Some Cons.IH
      by (cases "tickTimes w d org dst (sort (map fst ts))") auto
  qed
qed

lemma tickOrigins_preserves:
  assumes "\<And>d org dst tm. P d \<Longrightarrow> P (stateOf (tickFare w d org dst tm))" and "P d"
  shows "P (stateOf (tickOrigins w d orgs))"
  using assms(2)
proof (induction orgs arbitrary: d)
  case Nil
  then show ?case by simp
next
  case (Cons org orgs)
  show ?case
  proof (cases "map_of (fareBoard d) org")
    case None
    then show ?thesis using Cons.prems by simp
  next
    case (Some dests)
    have "P (stateOf (tickDests w d org (map fst dests)))"
      using assms(1) Cons.prems by (rule tickDests_preserves)
    then show ?thesis using Some Cons.IH
      by (cases "tickDests w d org (map fst dests)") auto
  qed
qed

lemma noEmptyBuckets_commitFare:
  "noEmptyBuckets (fareBoard d) \<Longrightarrow> noEmptyBuckets (fareBoard (stateOf (commitFare d org dst tm a)))"
  by (auto simp: commitFare_def Let_def noEmptyBuckets_modEntry split: sum.splits)

lemma noEmptyBuckets_allocateFare:
  assumes "noEmptyBuckets (fareBoard d)"
  shows "noEmptyBuckets (fareBoard (stateOf (allocateFare w d org dst tm)))"
proof -
  have "noEmptyBuckets (fareBoard (stateOf (commitFare d org dst tm a)))" for a
    using assms by (rule noEmptyBuckets_commitFare)
  then show ?thesis
    unfolding allocateFare_def
    by (simp add: assms split: option.splits sum.splits list.splits)
qed

lemma noEmptyBuckets_tickFare:
  assumes "noEmptyBuckets (fareBoard d)"
  shows "noEmptyBuckets (fareBoard (stateOf (tickFare w d org dst tm)))"
  using assms noEmptyBuckets_allocateFare[OF assms, of w org dst tm]
  by (auto simp: tickFare_def noEmptyBuckets_modEntry split: option.splits sum.splits)

lemma noEmptyBuckets_clockTick:
  assumes "noEmptyBuckets (fareBoard d)"
  shows "noEmptyBuckets (fareBoard (stateOf (clockTick w d p)))"
proof -
  have "noEmptyBuckets (fareBoard (stateOf (tickOrigins w d (map fst (fareBoard d)))))"
    using noEmptyBuckets_tickFare assms
    by (rule tickOrigins_preserves[where P = "\<lambda>d. noEmptyBuckets (fareBoard d)"])
  then show ?thesis using assms by (simp add: clockTick_def)
qed

lemma noEmptyBuckets_addTaxi_recvPayment:
  "noEmptyBuckets (fareBoard d) \<Longrightarrow> noEmptyBuckets (fareBoard (addTaxi d tx))"
  "noEmptyBuckets (fareBoard d) \<Longrightarrow> noEmptyBuckets (fareBoard (recvPayment d p amount))"
  by (simp_all add: addTaxi_def recvPayment_def)

subsection \<open>Bids\<close>

lemma find_append_case:
  "find P (xs @ ys) = (case find P xs of None \<Rightarrow> find P ys | Some x \<Rightarrow> Some x)"
  by (induction xs) auto

lemma find_open_pair:
  "find isOpen (map (Pair dst) ts) = map_option (Pair dst) (find (\<lambda>(tm, f). taxi f = - 1) ts)"
  by (induction ts) (auto simp: isOpen_def)

text \<open>
  The two loops of \<open>fareBid\<close> look every key up again in the dictionary it came from. On
  dictionaries, where keys are distinct, that is a search through the entries in order.
\<close>

lemma openTime_find:
  assumes "distinct (map fst ts)" and "set suf \<subseteq> set ts"
  shows "openTime ts (map fst suf) = map_option fst (find (\<lambda>(tm, f). taxi f = - 1) suf)"
  using assms(2)
proof (induction suf)
  case Nil
  then show ?case by simp
next
  case (Cons x suf)
  obtain tm f where x: "x = (tm, f)" by (cases x)
  with Cons.prems assms(1) have "map_of ts tm = Some f" by simp
  then show ?case using Cons x by simp
qed

lemma openFare_find:
  assumes "distinctKeys dests" and "set suf \<subseteq> set dests"
  shows "openFare dests (map fst suf) =
           map_option (\<lambda>(dst, tm, f). (dst, tm)) (find isOpen (pendingAt suf))"
  using assms(2)
proof (induction suf)
  case Nil
  then show ?case by (simp add: pendingAt_def)
next
  case (Cons x suf)
  obtain dst ts where x: "x = (dst, ts)" by (cases x)
  have m: "map_of dests dst = Some ts" and dts: "distinct (map fst ts)"
    using Cons.prems assms(1) x by (auto simp: distinctKeys_def)
  have ot: "openTime ts (map fst ts) = map_option fst (find (\<lambda>(tm, f). taxi f = - 1) ts)"
    using dts by (rule openTime_find) simp
  have pa: "pendingAt (x # suf) = map (Pair dst) ts @ pendingAt suf"
    by (simp add: pendingAt_def x)
  show ?case
  proof (cases "find (\<lambda>(tm, f). taxi f = - 1) ts")
    case None
    then show ?thesis using Cons x m ot pa
      by (simp add: find_append_case find_open_pair)
  next
    case (Some y)
    then show ?thesis using x m ot pa
      by (cases y) (simp add: find_append_case find_open_pair)
  qed
qed

lemma pendingAt_lookup:
  assumes "distinctKeys dests" and "(dst, tm, f) \<in> set (pendingAt dests)"
  shows "\<exists>ts. map_of dests dst = Some ts \<and> map_of ts tm = Some f"
proof -
  from assms(2) obtain ts where "(dst, ts) \<in> set dests" "(tm, f) \<in> set ts"
    by (auto simp: pendingAt_def)
  with assms(1) show ?thesis by (auto simp: distinctKeys_def)
qed

text \<open>
  C9, as the code has it. A bid by a known taxi at an origin with an open fare is recorded
  on exactly one entry, the first open one in the order in which the dictionaries are
  iterated (destinations and, within a destination, call times in insertion order, not
  sorted); every other entry of the board is unchanged.
\<close>

theorem fareBid_first_open:
  assumes "tx \<in> set (taxis d)" and "map_of (fareBoard d) org = Some dests"
    and "distinctKeys dests" and "find isOpen (pendingAt dests) = Some (dst, tm, f)"
  shows "lookup3 (fareBoard (fareBid d org tx)) org dst tm
           = Some (f\<lparr>bidders := bidders f @ [list_index (taxis d) tx]\<rparr>)
         \<and> (\<forall>org' dst' tm'. (org', dst', tm') \<noteq> (org, dst, tm) \<longrightarrow>
               lookup3 (fareBoard (fareBid d org tx)) org' dst' tm'
                 = lookup3 (fareBoard d) org' dst' tm')"
proof -
  have "openFare dests (map fst dests) = Some (dst, tm)"
    using openFare_find[OF assms(3), of dests] assms(4) by simp
  then have fb: "fareBid d org tx = d\<lparr>fareBoard := modEntry (fareBoard d) org dst tm
                       (\<lambda>f. f\<lparr>bidders := bidders f @ [list_index (taxis d) tx]\<rparr>)\<rparr>"
    using assms(1,2) by (simp add: fareBid_def)
  have "(dst, tm, f) \<in> set (pendingAt dests)"
    using assms(4) by (auto simp: find_Some_iff)
  then have "lookup3 (fareBoard d) org dst tm = Some f"
    using pendingAt_lookup[OF assms(3)] assms(2) by (fastforce simp: lookup3_def lookup2_def)
  then show ?thesis
    unfolding fb by (auto simp: lookup3_modEntry)
qed

lemma twoFares_eval:
  "twoFares = \<lparr>parent = 0, revenue = 0, taxis = [7],
      fareBoard = [((0, 0), [((3, 0), [(5, fareAt 5 []), (3, fareAt 3 [])])])],
      fareAmountConstraint = [], calls = []\<rparr>"
  by (simp add: twoFares_def newFare_def addTaxi_def initDispatcher_def fareAt_def)

theorem fareBid_first_open_witness:
  "7 \<in> set (taxis twoFares)
   \<and> map_of (fareBoard twoFares) (0, 0) = Some [((3, 0), [(5, fareAt 5 []), (3, fareAt 3 [])])]
   \<and> distinctKeys [((3, 0), [(5, fareAt 5 []), (3, fareAt 3 [])])]
   \<and> find isOpen (pendingAt [((3, 0), [(5, fareAt 5 []), (3, fareAt 3 [])])])
       = Some ((3, 0), 5, fareAt 5 [])
   \<and> lookup3 (fareBoard (fareBid twoFares (0, 0) 7)) (0, 0) (3, 0) 5
       = Some ((fareAt 5 [])\<lparr>bidders := bidders (fareAt 5 []) @ [list_index (taxis twoFares) 7]\<rparr>)
   \<and> lookup3 (fareBoard (fareBid twoFares (0, 0) 7)) (0, 0) (3, 0) 3
       = lookup3 (fareBoard twoFares) (0, 0) (3, 0) 3"
proof -
  let ?dests = "[((3, 0), [(5, fareAt 5 []), (3, fareAt 3 [])])] :: dest_bucket"
  have h1: "7 \<in> set (taxis twoFares)"
    by (simp add: twoFares_eval)
  have h2: "map_of (fareBoard twoFares) (0, 0) = Some ?dests"
    by (simp add: twoFares_eval)
  have h3: "distinctKeys ?dests"
    by (simp add: distinctKeys_def)
  have h4: "find isOpen (pendingAt ?dests) = Some ((3, 0), 5, fareAt 5 [])"
    by (simp add: pendingAt_def isOpen_def fareAt_def)
  have "((0, 0), (3, 0), 3) \<noteq> ((0 :: int, 0 :: int), (3 :: int, 0 :: int), 5 :: int)"
    by simp
  with fareBid_first_open[OF h1 h2 h3 h4] h1 h2 h3 h4 show ?thesis
    by blast
qed

text \<open>
  C9, as the claim has it, fails. On the board of \<open>twoFares\<close> the first open fare in
  ascending order of call time is the one called at time 3, but the bid of taxi 7 is
  recorded on the fare called at time 5, which was registered first; the fare of time 3
  keeps an empty bidder list.
\<close>

theorem fareBid_not_in_sorted_order:
  "map_of (fareBoard twoFares) (0, 0) = Some [((3, 0), [(5, fareAt 5 []), (3, fareAt 3 [])])]
   \<and> find isOpen (pendingSorted [((3, 0), [(5, fareAt 5 []), (3, fareAt 3 [])])])
       = Some ((3, 0), 3, fareAt 3 [])
   \<and> lookup3 (fareBoard (fareBid twoFares (0, 0) 7)) (0, 0) (3, 0) 3 = Some (fareAt 3 [])
   \<and> lookup3 (fareBoard (fareBid twoFares (0, 0) 7)) (0, 0) (3, 0) 5 = Some (fareAt 5 [0])"
  by (simp add: twoFares_eval pendingSorted_def isOpen_def fareAt_def fareBid_def lookup3_def
      lookup2_def modEntry_def list_index_def)

subsection \<open>A second bid by the same taxi\<close>

lemma openTime_open:
  "openTime ts keys = Some tm \<Longrightarrow> \<exists>f. map_of ts tm = Some f \<and> taxi f = - 1"
  by (induction keys) (auto split: option.splits if_splits)

lemma openFare_open:
  "openFare dests keys = Some (dst, tm) \<Longrightarrow>
     \<exists>ts f. map_of dests dst = Some ts \<and> map_of ts tm = Some f \<and> taxi f = - 1"
  by (induction keys) (auto split: option.splits dest: openTime_open)

lemma map_fst_map_entry: "map fst (AList.map_entry k h xs) = map fst xs"
  by (induction xs) auto

text \<open>Which fare is open for bids depends on the \<open>taxi\<close> fields only.\<close>

lemma openTime_map_entry:
  assumes "\<And>f. taxi (g f) = taxi f"
  shows "openTime (AList.map_entry tm g ts) keys = openTime ts keys"
  by (induction keys) (auto simp: map_of_map_entry assms split: option.splits)

lemma openFare_map_entry:
  assumes "\<And>f. taxi (g f) = taxi f"
  shows "openFare (AList.map_entry dst (AList.map_entry tm g) dests) keys = openFare dests keys"
  by (induction keys)
    (auto simp: map_of_map_entry map_fst_map_entry openTime_map_entry[of g, OF assms]
      split: option.splits)

lemma fareBid_open:
  assumes "tx \<in> set (taxis d)" and "map_of (fareBoard d) org = Some dests"
    and "openFare dests (map fst dests) = Some (dst, tm)"
  shows "fareBid d org tx = d\<lparr>fareBoard := modEntry (fareBoard d) org dst tm
                       (\<lambda>f. f\<lparr>bidders := bidders f @ [list_index (taxis d) tx]\<rparr>)\<rparr>"
  using assms by (simp add: fareBid_def)

text \<open>
  C8, as the code has it. \<open>fareBid\<close> appends the bidder's index without looking for it
  in the list: when the loops of \<open>fareBid\<close> find an open fare for a known taxi, one bid
  puts the taxi's index at the end of that fare's bidder list, and a second bid by the
  same taxi puts it there once more.
\<close>

theorem fareBid_twice:
  assumes "tx \<in> set (taxis d)" and "map_of (fareBoard d) org = Some dests"
    and "openFare dests (map fst dests) = Some (dst, tm)"
  shows "\<exists>f. lookup3 (fareBoard d) org dst tm = Some f
           \<and> lookup3 (fareBoard (fareBid d org tx)) org dst tm
               = Some (f\<lparr>bidders := bidders f @ [list_index (taxis d) tx]\<rparr>)
           \<and> lookup3 (fareBoard (fareBid (fareBid d org tx) org tx)) org dst tm
               = Some (f\<lparr>bidders :=
                   bidders f @ [list_index (taxis d) tx, list_index (taxis d) tx]\<rparr>)"
proof -
  let ?g = "\<lambda>f. f\<lparr>bidders := bidders f @ [list_index (taxis d) tx]\<rparr>"
  let ?d1 = "fareBid d org tx"
  obtain f where f: "lookup3 (fareBoard d) org dst tm = Some f"
    using openFare_open[OF assms(3)] assms(2) by (auto simp: lookup3_def lookup2_def)
  have d1: "?d1 = d\<lparr>fareBoard := modEntry (fareBoard d) org dst tm ?g\<rparr>"
    using assms by (rule fareBid_open)
  have m1: "map_of (fareBoard ?d1) org = Some (AList.map_entry dst (AList.map_entry tm ?g) dests)"
    using assms(2) by (simp add: d1 modEntry_def map_of_map_entry)
  have o1: "openFare (AList.map_entry dst (AList.map_entry tm ?g) dests)
              (map fst (AList.map_entry dst (AList.map_entry tm ?g) dests)) = Some (dst, tm)"
    using assms(3) by (simp add: map_fst_map_entry openFare_map_entry)
  have t1: "tx \<in> set (taxis ?d1)" "taxis ?d1 = taxis d"
    using assms(1) by (simp_all add: d1)
  have d2: "fareBid ?d1 org tx = ?d1\<lparr>fareBoard := modEntry (fareBoard ?d1) org dst tm ?g\<rparr>"
    using fareBid_open[OF t1(1) m1 o1] t1(2) by simp
  have l1: "lookup3 (fareBoard ?d1) org dst tm = Some (?g f)"
    using f by (simp add: d1 lookup3_modEntry)
  have "lookup3 (fareBoard (fareBid ?d1 org tx)) org dst tm = Some (?g (?g f))"
    by (subst d2) (simp add: lookup3_modEntry l1)
  then show ?thesis using f l1 by simp
qed

lemma oneFare_eval:
  "newFare (addTaxi (initDispatcher 0) 7) 0 (0, 0) (3, 0) 1
     = \<lparr>parent = 0, revenue = 0, taxis = [7],
        fareBoard = [((0, 0), [((3, 0), [(1, fareAt 1 [])])])],
        fareAmountConstraint = [], calls = []\<rparr>"
  by (simp add: newFare_def addTaxi_def initDispatcher_def fareAt_def)

theorem fareBid_twice_witness:
  "7 \<in> set (taxis (newFare (addTaxi (initDispatcher 0) 7) 0 (0, 0) (3, 0) 1))
   \<and> map_of (fareBoard (newFare (addTaxi (initDispatcher 0) 7) 0 (0, 0) (3, 0) 1)) (0, 0)
       = Some [((3, 0), [(1, fareAt 1 [])])]
   \<and> openFare [((3, 0), [(1, fareAt 1 [])])] (map fst [((3 :: int, 0 :: int), [(1 :: int, fareAt 1 [])])])
       = Some ((3, 0), 1)
   \<and> (\<exists>f. lookup3 (fareBoard (newFare (addTaxi (initDispatcher 0) 7) 0 (0, 0) (3, 0) 1))
              (0, 0) (3, 0) 1 = Some f
         \<and> lookup3 (fareBoard
               (fareBid (fareBid (newFare (addTaxi (initDispatcher 0) 7) 0 (0, 0) (3, 0) 1)
                  (0, 0) 7) (0, 0) 7)) (0, 0) (3, 0) 1
             = Some (f\<lparr>bidders := bidders f @
                 [list_index (taxis (newFare (addTaxi (initDispatcher 0) 7) 0 (0, 0) (3, 0) 1)) 7,
                  list_index (taxis (newFare (addTaxi (initDispatcher 0) 7) 0 (0, 0) (3, 0) 1)) 7]\<rparr>))"
proof -
  let ?d = "newFare (addTaxi (initDispatcher 0) 7) 0 (0, 0) (3, 0) 1"
  let ?dests = "[((3, 0), [(1, fareAt 1 [])])] :: dest_bucket"
  have h1: "7 \<in> set (taxis ?d)"
    by (simp add: oneFare_eval)
  have h2: "map_of (fareBoard ?d) (0, 0) = Some ?dests"
    by (simp add: oneFare_eval)
  have h3: "openFare ?dests (map fst ?dests) = Some ((3, 0), 1)"
    by (simp add: fareAt_def)
  from fareBid_twice[OF h1 h2 h3] h1 h2 h3 show ?thesis
    by blast
qed

text \<open>
  C8, as the claim has it, fails. Taxi 7 is made known, a fare calls, taxi 7 bids twice:
  the bidder list of the fare is \<open>[0, 0]\<close>, and index 0 stands in it twice.
\<close>

theorem fareBid_twice_duplicates:
  "lookup3 (fareBoard
       (fareBid (fareBid (newFare (addTaxi (initDispatcher 0) 7) 0 (0, 0) (3, 0) 1) (0, 0) 7)
          (0, 0) 7)) (0, 0) (3, 0) 1
     = Some (fareAt 1 [0, 0])
   \<and> \<not> distinct (bidders (fareAt 1 [0, 0]))"
  by (simp add: oneFare_eval fareAt_def fareBid_def lookup3_def lookup2_def modEntry_def
      list_index_def)

subsection \<open>Handover\<close>

lemma lookup3_newFare:
  "lookup3 (fareBoard (newFare d (parent d) org dst tm)) org dst tm
     = Some \<lparr>origin = org, destination = dst, calltime = tm, price = 0, taxi = - 1,
              bidders = []\<rparr>"
  by (auto simp: newFare_def lookup3_def lookup2_def Let_def map_of_map_entry
      AList.update_conv' split: option.splits)

lemma newFare_frame:
  "taxis (newFare d p org dst tm) = taxis d"
  "parent (newFare d p org dst tm) = parent d"
  "fareAmountConstraint (newFare d p org dst tm) = fareAmountConstraint d"
  by (simp_all add: newFare_def Let_def)

lemma list_index_less: "x \<in> set xs \<Longrightarrow> list_index xs x < length xs"
  unfolding list_index_def by (induction xs) auto

lemma list_index_nth: "x \<in> set xs \<Longrightarrow> xs ! list_index xs x = x"
  unfolding list_index_def by (induction xs) auto

lemma handover_ledger:
  "fareAmountConstraint (handover d p org dst tm tx pr) = fareAmountConstraint d"
  by (simp add: handover_def newFare_frame Let_def)

lemma handover_known: "parent d = p \<Longrightarrow> tx \<in> set (taxis (handover d p org dst tm tx pr))"
  by (simp add: handover_def Let_def newFare_frame)

lemma handover_entry:
  assumes "parent d = p"
  shows "lookup3 (fareBoard (handover d p org dst tm tx pr)) org dst tm
     = Some \<lparr>origin = org, destination = dst, calltime = tm, price = pr,
         taxi = int (list_index (taxis (handover d p org dst tm tx pr)) tx), bidders = []\<rparr>"
proof -
  let ?d1 = "if tx \<notin> set (taxis d) then d\<lparr>taxis := taxis d @ [tx]\<rparr> else d"
  have p1: "parent ?d1 = p" using assms by simp
  have "lookup3 (fareBoard (newFare ?d1 (parent ?d1) org dst tm)) org dst tm
     = Some \<lparr>origin = org, destination = dst, calltime = tm, price = 0, taxi = - 1,
              bidders = []\<rparr>"
    by (rule lookup3_newFare)
  then have "lookup3 (fareBoard (newFare ?d1 p org dst tm)) org dst tm
     = Some \<lparr>origin = org, destination = dst, calltime = tm, price = 0, taxi = - 1,
              bidders = []\<rparr>"
    using p1 by simp
  then show ?thesis
    using assms by (simp add: handover_def Let_def lookup3_modEntry newFare_frame)
qed

subsection \<open>Dictionaries hold each key once\<close>

text \<open>
  The association lists of the model are dictionaries: starting from a new dispatcher, no
  method, returning or raising, ever stores a key twice. The theorems on bids and on the
  choice among bidders assume this of the dictionaries they read.
\<close>

lemma values_map_entry:
  assumes "\<forall>v \<in> snd ` set xs. Q v" and "\<And>v. Q v \<Longrightarrow> Q (h v)"
  shows "\<forall>v \<in> snd ` set (AList.map_entry k h xs). Q v"
  using assms(1) by (induction xs) (auto simp: assms(2))

lemma values_update:
  assumes "\<forall>v \<in> snd ` set xs. Q v" and "Q v0"
  shows "\<forall>v \<in> snd ` set (AList.update k v0 xs). Q v"
  using assms by (induction xs) auto

lemma values_delete:
  assumes "\<forall>v \<in> snd ` set xs. Q v"
  shows "\<forall>v \<in> snd ` set (AList.delete k xs). Q v"
  using assms by (auto simp: AList.delete_eq)

lemma distinctKeys_alt:
  "distinctKeys dests \<longleftrightarrow> distinct (map fst dests) \<and> (\<forall>ts \<in> snd ` set dests. distinctTimes ts)"
  by (auto simp: distinctKeys_def distinctTimes_def)

lemma distinctKeys_map_entry:
  assumes "distinctKeys dests" and "\<And>ts. distinctTimes ts \<Longrightarrow> distinctTimes (h ts)"
  shows "distinctKeys (AList.map_entry dst h dests)"
proof -
  have "\<forall>ts \<in> snd ` set dests. distinctTimes ts"
    using assms(1) by (simp add: distinctKeys_alt)
  then have "\<forall>ts \<in> snd ` set (AList.map_entry dst h dests). distinctTimes ts"
    using assms(2) by (rule values_map_entry)
  moreover have "distinct (map fst (AList.map_entry dst h dests))"
    using assms(1) by (simp add: distinctKeys_alt AList.distinct_map_entry)
  ultimately show ?thesis by (simp add: distinctKeys_alt)
qed

lemma distinctKeys_update:
  assumes "distinctKeys dests" and "distinctTimes ts"
  shows "distinctKeys (AList.update dst ts dests)"
proof -
  have "\<forall>ts \<in> snd ` set dests. distinctTimes ts"
    using assms(1) by (simp add: distinctKeys_alt)
  then have "\<forall>ts' \<in> snd ` set (AList.update dst ts dests). distinctTimes ts'"
    using assms(2) by (rule values_update)
  moreover have "distinct (map fst (AList.update dst ts dests))"
    using assms(1) by (simp add: distinctKeys_alt AList.distinct_update)
  ultimately show ?thesis by (simp add: distinctKeys_alt)
qed

lemma distinctKeys_delete:
  assumes "distinctKeys dests"
  shows "distinctKeys (AList.delete dst dests)"
proof -
  have "\<forall>ts \<in> snd ` set dests. distinctTimes ts"
    using assms(1) by (simp add: distinctKeys_alt)
  then have "\<forall>ts' \<in> snd ` set (AList.delete dst dests). distinctTimes ts'"
    by (rule values_delete)
  moreover have "distinct (map fst (AList.delete dst dests))"
    using assms(1) by (simp add: distinctKeys_alt AList.distinct_delete)
  ultimately show ?thesis by (simp add: distinctKeys_alt)
qed

lemma distinctTimes_simps:
  "distinctTimes []"
  "distinctTimes ts \<Longrightarrow> distinctTimes (AList.map_entry tm g ts)"
  "distinctTimes ts \<Longrightarrow> distinctTimes (AList.update tm f ts)"
  "distinctTimes ts \<Longrightarrow> distinctTimes (AList.delete tm ts)"
  by (simp_all add: distinctTimes_def AList.distinct_map_entry AList.distinct_update
      AList.distinct_delete)


lemma wfBoard_map_entry:
  assumes "wfBoard fb" and "\<And>dests. distinctKeys dests \<Longrightarrow> distinctKeys (h dests)"
  shows "wfBoard (AList.map_entry org h fb)"
proof -
  have "\<forall>dests \<in> snd ` set fb. distinctKeys dests"
    using assms(1) by (simp add: wfBoard_def)
  then have "\<forall>dests \<in> snd ` set (AList.map_entry org h fb). distinctKeys dests"
    using assms(2) by (rule values_map_entry)
  moreover have "distinct (map fst (AList.map_entry org h fb))"
    using assms(1) by (simp add: wfBoard_def AList.distinct_map_entry)
  ultimately show ?thesis by (simp add: wfBoard_def)
qed

lemma wfBoard_update:
  assumes "wfBoard fb" and "distinctKeys dests"
  shows "wfBoard (AList.update org dests fb)"
proof -
  have "\<forall>dests \<in> snd ` set fb. distinctKeys dests"
    using assms(1) by (simp add: wfBoard_def)
  then have "\<forall>dests' \<in> snd ` set (AList.update org dests fb). distinctKeys dests'"
    using assms(2) by (rule values_update)
  moreover have "distinct (map fst (AList.update org dests fb))"
    using assms(1) by (simp add: wfBoard_def AList.distinct_update)
  ultimately show ?thesis by (simp add: wfBoard_def)
qed

lemma wfBoard_delete:
  assumes "wfBoard fb"
  shows "wfBoard (AList.delete org fb)"
proof -
  have "\<forall>dests \<in> snd ` set fb. distinctKeys dests"
    using assms(1) by (simp add: wfBoard_def)
  then have "\<forall>dests' \<in> snd ` set (AList.delete org fb). distinctKeys dests'"
    by (rule values_delete)
  moreover have "distinct (map fst (AList.delete org fb))"
    using assms(1) by (simp add: wfBoard_def AList.distinct_delete)
  ultimately show ?thesis by (simp add: wfBoard_def)
qed

lemma wfBoard_modEntry: "wfBoard fb \<Longrightarrow> wfBoard (modEntry fb org dst tm g)"
  unfolding modEntry_def
  by (intro wfBoard_map_entry distinctKeys_map_entry distinctTimes_simps)

lemma wfBoard_pruneBuckets: "wfBoard fb \<Longrightarrow> wfBoard (pruneBuckets fb org dst)"
  by (simp add: pruneBuckets_if Let_def wfBoard_delete wfBoard_map_entry distinctKeys_delete)

lemma distinctKeys_single: "distinctKeys [(dst, [])]"
  by (simp add: distinctKeys_def)

lemma wfBoard_newFare:
  assumes "wfBoard (fareBoard d)"
  shows "wfBoard (fareBoard (newFare d p org dst tm))"
proof -
  have step: "wfBoard (AList.map_entry org (AList.map_entry dst (AList.update tm f)) fb)"
    if "wfBoard fb" for fb f
    using that by (intro wfBoard_map_entry distinctKeys_map_entry distinctTimes_simps)
  have a: "wfBoard (AList.update org [(dst, [])] (fareBoard d))"
    using assms distinctKeys_single by (rule wfBoard_update)
  have b: "wfBoard (AList.map_entry org (AList.update dst []) (fareBoard d))"
    using assms by (intro wfBoard_map_entry distinctKeys_update distinctTimes_simps)
  show ?thesis
    using assms a b by (simp add: newFare_def Let_def step split: option.splits)
qed

lemma wfDispatcher_init: "wfDispatcher (initDispatcher p)"
  by (simp add: wfDispatcher_def wfBoard_def initDispatcher_def)

lemma wfDispatcher_addTaxi: "wfDispatcher d \<Longrightarrow> wfDispatcher (addTaxi d tx)"
  by (simp add: wfDispatcher_def addTaxi_def)

lemma wfDispatcher_recvPayment: "wfDispatcher d \<Longrightarrow> wfDispatcher (recvPayment d p amount)"
  by (simp add: wfDispatcher_def recvPayment_def)

lemma wfDispatcher_newFare: "wfDispatcher d \<Longrightarrow> wfDispatcher (newFare d p org dst tm)"
  by (simp add: wfDispatcher_def wfBoard_newFare newFare_frame)

lemma wfDispatcher_handover:
  assumes "wfDispatcher d"
  shows "wfDispatcher (handover d p org dst tm tx pr)"
proof -
  have "wfBoard (fareBoard (newFare (d\<lparr>taxis := txs\<rparr>) p org dst tm))" for txs
    using assms by (intro wfBoard_newFare) (simp add: wfDispatcher_def)
  moreover have "wfBoard (fareBoard (newFare d p org dst tm))"
    using assms by (intro wfBoard_newFare) (simp add: wfDispatcher_def)
  ultimately show ?thesis
    using assms
    by (simp add: handover_def Let_def wfDispatcher_def wfBoard_modEntry newFare_frame)
qed

lemma wfDispatcher_fareBid: "wfDispatcher d \<Longrightarrow> wfDispatcher (fareBid d org tx)"
  by (auto simp: fareBid_def wfDispatcher_def wfBoard_modEntry split: option.splits)

lemma wfDispatcher_cancelFare:
  assumes "wfDispatcher d"
  shows "wfDispatcher (stateOf (cancelFare d p org dst tm))"
proof -
  have "wfBoard (AList.map_entry org (AList.map_entry dst (AList.delete tm)) (fareBoard d))"
    using assms unfolding wfDispatcher_def
    by (intro wfBoard_map_entry distinctKeys_map_entry distinctTimes_simps) simp
  then show ?thesis
    using assms
    by (auto simp: cancelFare_def wfDispatcher_def wfBoard_pruneBuckets
        split: option.splits sum.splits)
qed

lemma wfDispatcher_commitFare:
  "wfDispatcher d \<Longrightarrow> wfDispatcher (stateOf (commitFare d org dst tm a))"
  by (auto simp: commitFare_def Let_def wfDispatcher_def wfBoard_modEntry AList.distinct_update
      split: sum.splits option.splits)

lemma wfDispatcher_allocateFare:
  assumes "wfDispatcher d"
  shows "wfDispatcher (stateOf (allocateFare w d org dst tm))"
proof -
  have "wfDispatcher (stateOf (commitFare d org dst tm a))" for a
    using assms by (rule wfDispatcher_commitFare)
  then show ?thesis
    unfolding allocateFare_def
    by (simp add: assms split: option.splits sum.splits list.splits)
qed

lemma wfDispatcher_tickFare:
  assumes "wfDispatcher d"
  shows "wfDispatcher (stateOf (tickFare w d org dst tm))"
  using assms wfDispatcher_allocateFare[OF assms, of w org dst tm]
  by (auto simp: tickFare_def wfDispatcher_def wfBoard_modEntry split: option.splits sum.splits)

lemma wfDispatcher_clockTick:
  assumes "wfDispatcher d"
  shows "wfDispatcher (stateOf (clockTick w d p))"
proof -
  have "wfDispatcher (stateOf (tickOrigins w d (map fst (fareBoard d))))"
    using wfDispatcher_tickFare assms by (rule tickOrigins_preserves)
  then show ?thesis using assms by (simp add: clockTick_def)
qed

text \<open>What the invariant gives at one origin, in the form the bid theorem asks for.\<close>

lemma wfDispatcher_distinctKeys:
  assumes "wfDispatcher d" and "map_of (fareBoard d) org = Some dests"
  shows "distinctKeys dests"
proof -
  have "(org, dests) \<in> set (fareBoard d)" using assms(2) by (rule map_of_SomeD)
  then have "dests \<in> snd ` set (fareBoard d)" by force
  then show ?thesis using assms(1) unfolding wfDispatcher_def wfBoard_def by blast
qed

subsection \<open>The stuck-taxi loop does not defer\<close>

lemmas allocation_eval =
  lineWorld_def pricedFare_def boardOf_def biddingState_def allocateFare_def lookup3_def
  lookup2_def pathBlocks_def commitFare_def py_index_def modEntry_def chooseAmong_def
  min_key_def min_value_def Let_def

text \<open>
  The state used below is one the dispatcher reaches: taxi 7 is made known, the fare calls,
  a tick prices and broadcasts it, taxi 7 bids.
\<close>

lemma biddingState_reached:
  "fareBid (stateOf (clockTick (lineWorld (\<lambda>t. (1, 0)) (\<lambda>t. []))
       (newFare (addTaxi (initDispatcher 0) 7) 0 (0, 0) (3, 0) 1) 0)) (0, 0) 7
   = biddingState [7] [0] []"
  by (simp add: allocation_eval initDispatcher_def addTaxi_def newFare_def clockTick_def
      tickFare_def costFare_def priceFor_def upt_conv_Cons fareBid_def list_index_def
      capLoop_once)

text \<open>
  C1. When the test of the stuck-taxi loop holds for some bidder and some known taxi, the
  call is to leave the fare unallocated. It does not. Taxi 7 is the only bidder; it stands at \<open>(1, 0)\<close>, one step from the origin, and
  its path has length 1 and ends at the origin, so the test of the stuck-taxi loop holds
  for this bidder and this taxi. The call still allocates the fare: the entry's \<open>taxi\<close>
  becomes 0 and the count of taxi 0 becomes 1.
\<close>

theorem allocateFare_ignores_stuck_guard:
  "pathBlocks (lineWorld (\<lambda>t. (1, 0)) (\<lambda>t. [(0, 0)])) (0, 0) (3, 0)
     (travelTime (lineWorld (\<lambda>t. (1, 0)) (\<lambda>t. [(0, 0)])) (Some 1) (Some 0))
     (travelTime (lineWorld (\<lambda>t. (1, 0)) (\<lambda>t. [(0, 0)])) (Some 1) (Some 3)) 7
   \<and> guardBidders (lineWorld (\<lambda>t. (1, 0)) (\<lambda>t. [(0, 0)])) [7] (0, 0) (3, 0) [0] (Some 0)
       = Inr None
   \<and> allocateFare (lineWorld (\<lambda>t. (1, 0)) (\<lambda>t. [(0, 0)])) (biddingState [7] [0] [])
       (0, 0) (3, 0) 1
     = Done ((biddingState [7] [0] [])
         \<lparr>fareBoard := boardOf ((pricedFare [0])\<lparr>taxi := 0\<rparr>),
          calls := [BroadcastFare (0, 0) (3, 0) (88 / 3), AllocateFare (0, 0) 7],
          fareAmountConstraint := [(0, 1)]\<rparr>)"
  by (simp add: allocation_eval)

text \<open>
  C3. Among several bidders of which some have never won a fare, the fare is to go to the
  one of these with the least travel time to the origin. After the stuck-taxi loop has
  fired it does not. Taxis 7 and 8 (indices 0 and 1) have never won a fare, taxi 9 (index 2) has won one.
  Taxi 8 is one step from the origin and taxi 7 five steps. The path of taxi 9 has length
  1 and ends at the origin, so the stuck-taxi loop sets \<open>fareNode\<close> to \<open>None\<close> when it
  reaches bidder 1. The travel times used for the choice are then those to the missing
  node, \<open>-1\<close> for both first-timers, and the fare goes to index 0, the farther of the two.
\<close>

theorem allocateFare_first_timer_not_nearest:
  "travelTime (lineWorld (\<lambda>t. if t = 7 then (5, 0) else if t = 8 then (1, 0) else (2, 0))
        (\<lambda>t. if t = 9 then [(0, 0)] else [])) (Some 1) (Some 0)
     < travelTime (lineWorld (\<lambda>t. if t = 7 then (5, 0) else if t = 8 then (1, 0) else (2, 0))
        (\<lambda>t. if t = 9 then [(0, 0)] else [])) (Some 5) (Some 0)
   \<and> allocateFare
       (lineWorld (\<lambda>t. if t = 7 then (5, 0) else if t = 8 then (1, 0) else (2, 0))
          (\<lambda>t. if t = 9 then [(0, 0)] else []))
       (biddingState [7, 8, 9] [0, 1, 2] [(2, 1)]) (0, 0) (3, 0) 1
     = Done ((biddingState [7, 8, 9] [0, 1, 2] [(2, 1)])
         \<lparr>fareBoard := boardOf ((pricedFare [0, 1, 2])\<lparr>taxi := 0\<rparr>),
          calls := [BroadcastFare (0, 0) (3, 0) (88 / 3), AllocateFare (0, 0) 7],
          fareAmountConstraint := [(2, 1), (0, 1)]\<rparr>)"
  by (simp add: allocation_eval)

subsection \<open>The choice among several bidders\<close>

lemma timesFor_simps [simp]:
  "timesFor g [] al = al"
  "timesFor g (x # xs) al = timesFor g xs (AList.update x (g x) al)"
  by (simp_all add: timesFor_def)

lemma map_of_timesFor:
  "map_of (timesFor g xs al) k = (if k \<in> set xs then Some (g k) else map_of al k)"
  by (induction xs arbitrary: al) (auto simp: AList.update_conv')

lemma distinct_timesFor:
  "distinct (map fst al) \<Longrightarrow> distinct (map fst (timesFor g xs al))"
  by (induction xs arbitrary: al) (auto simp: AList.distinct_update)

lemma keys_timesFor: "fst ` set (timesFor g xs al) = set xs \<union> fst ` set al"
  by (induction xs arbitrary: al) (auto simp: AList.dom_update)

lemma timesFor_nonempty: "xs \<noteq> [] \<Longrightarrow> timesFor g xs al \<noteq> []"
  using keys_timesFor[of g xs al] by (cases xs) auto

lemma splitBidders_eq:
  assumes "\<forall>i \<in> set bs. i < length (taxis d)"
  shows "splitBidders w d fn bs (cf, ini) =
           Inr (timesFor (bidderTime w d fn)
                  (filter (\<lambda>i. map_of (fareAmountConstraint d) i \<noteq> None) bs) cf,
                timesFor (bidderTime w d fn)
                  (filter (\<lambda>i. map_of (fareAmountConstraint d) i = None) bs) ini)"
  using assms
  by (induction bs arbitrary: cf ini) (auto simp: bidderTime_def Let_def split: option.splits)

lemma travelTimesOf_eq:
  assumes "\<forall>i \<in> set vs. i < length (taxis d)"
  shows "travelTimesOf w d fn vs al = Inr (timesFor (bidderTime w d fn) vs al)"
  using assms by (induction vs arbitrary: al) (auto simp: bidderTime_def)

lemma guardBidders_in_range:
  "guardBidders w txs org dst bs fn = Inr r \<Longrightarrow> \<forall>b \<in> set bs. b < length txs"
  by (induction bs arbitrary: fn) (auto simp: Let_def split: if_splits)

lemma min_from_least:
  "\<exists>v. (min_from (bk, bv) rest, v) \<in> set ((bk, bv) # rest)
       \<and> (\<forall>(k', v') \<in> set ((bk, bv) # rest). v \<le> v')"
proof (induction rest arbitrary: bk bv)
  case Nil
  then show ?case by simp
next
  case (Cons x rest)
  obtain k v where x: "x = (k, v)" by (cases x)
  show ?case
  proof (cases "v < bv")
    case True
    from Cons.IH[of k v] obtain u where
      "(min_from (k, v) rest, u) \<in> set ((k, v) # rest)" "\<forall>(k', v') \<in> set ((k, v) # rest). u \<le> v'"
      by blast
    then show ?thesis using True x by (intro exI[of _ u]) auto
  next
    case False
    from Cons.IH[of bk bv] obtain u where
      "(min_from (bk, bv) rest, u) \<in> set ((bk, bv) # rest)" "\<forall>(k', v') \<in> set ((bk, bv) # rest). u \<le> v'"
      by blast
    then show ?thesis using False x by (intro exI[of _ u]) auto
  qed
qed

lemma min_key_least:
  assumes "al \<noteq> []"
  shows "\<exists>k v. min_key al = Inr k \<and> (k, v) \<in> set al \<and> (\<forall>(k', v') \<in> set al. v \<le> v')"
proof -
  obtain kv rest where al: "al = kv # rest" using assms by (cases al) auto
  obtain bk bv where kv: "kv = (bk, bv)" by (cases kv)
  from min_from_least[of bk bv rest] show ?thesis
    by (auto simp: min_key_def al kv)
qed

text \<open>On a dictionary of travel times of bidders, the key found has the least time.\<close>

lemma min_key_timesFor:
  assumes "xs \<noteq> []"
  shows "\<exists>k. min_key (timesFor g xs []) = Inr k \<and> k \<in> set xs \<and> (\<forall>y \<in> set xs. g k \<le> g y)"
proof -
  let ?al = "timesFor g xs []"
  have ne: "?al \<noteq> []" using assms by (rule timesFor_nonempty)
  have dist: "distinct (map fst ?al)" by (rule distinct_timesFor) simp
  have mem: "(k, v) \<in> set ?al \<longleftrightarrow> k \<in> set xs \<and> v = g k" for k v
  proof -
    have "(k, v) \<in> set ?al \<longleftrightarrow> map_of ?al k = Some v"
      using dist by simp
    then show ?thesis by (auto simp: map_of_timesFor)
  qed
  from min_key_least[OF ne] obtain k v where
    kv: "min_key ?al = Inr k" "(k, v) \<in> set ?al" "\<forall>(k', v') \<in> set ?al. v \<le> v'"
    by blast
  have "k \<in> set xs" "v = g k" using kv(2) mem by auto
  moreover have "g k \<le> g y" if "y \<in> set xs" for y
  proof -
    have "(y, g y) \<in> set ?al" using that mem by simp
    with kv(3) \<open>v = g k\<close> show ?thesis by auto
  qed
  ultimately show ?thesis using kv(1) by blast
qed

lemma commitFare_done:
  assumes "a < length (taxis d)" and "lookup3 (fareBoard d) org dst tm = Some f"
  shows "\<exists>d'. commitFare d org dst tm (int a) = Done d'
           \<and> lookup3 (fareBoard d') org dst tm = Some (f\<lparr>taxi := int a\<rparr>)"
  using assms by (simp add: commitFare_def py_index_def Let_def lookup3_modEntry)

text \<open>
  With one bidder nothing that the stuck-taxi loop computes is read again: whatever the
  paths of the taxis are, the fare goes to that bidder.
\<close>

lemma single_bidder_always_allocated:
  assumes "lookup3 (fareBoard d) org dst tm = Some f" and "bidders f = [b]"
    and "b < length (taxis d)" and "getNode w org = Some n"
  shows "\<exists>d'. allocateFare w d org dst tm = Done d'
           \<and> lookup3 (fareBoard d') org dst tm = Some (f\<lparr>taxi := int b\<rparr>)"
proof -
  have "fareBoard d \<noteq> []" using assms(1) by (auto simp: lookup3_def lookup2_def)
  moreover have "taxis d \<noteq> []" using assms(3) by auto
  ultimately have "allocateFare w d org dst tm = commitFare d org dst tm (int b)"
    using assms by (simp add: allocateFare_def Let_def)
  then show ?thesis using commitFare_done[OF assms(3) assms(1)] by simp
qed

lemma allocateFare_multi:
  assumes "lookup3 (fareBoard d) org dst tm = Some f" and "getNode w org = Some n"
    and "guardBidders w (taxis d) org dst (bidders f) (Some n) = Inr fn"
    and "length (bidders f) > 1" and "chooseAmong w d fn (bidders f) = Inr a"
  shows "allocateFare w d org dst tm = commitFare d org dst tm (int a)"
proof -
  have "fareBoard d \<noteq> []" using assms(1) by (auto simp: lookup3_def lookup2_def)
  moreover have "taxis d \<noteq> []"
    using guardBidders_in_range[OF assms(3)] assms(4) by (cases "bidders f") auto
  ultimately show ?thesis using assms by (simp add: allocateFare_def)
qed

text \<open>
  Several bidders, at least one of them without a count, on a call where the stuck-taxi
  loop leaves \<open>fareNode\<close> alone: the fare goes to a bidder without a count, and none of
  those has a smaller travel time to the origin.
\<close>

lemma first_timer_wins_when_guard_silent:
  assumes entry: "lookup3 (fareBoard d) org dst tm = Some f" and node: "getNode w org = Some n"
    and silent: "guardBidders w (taxis d) org dst (bidders f) (Some n) = Inr (Some n)"
    and many: "length (bidders f) > 1"
    and ft: "x \<in> set (bidders f)" "map_of (fareAmountConstraint d) x = None"
  shows "\<exists>d' win. allocateFare w d org dst tm = Done d'
           \<and> win \<in> set (bidders f) \<and> map_of (fareAmountConstraint d) win = None
           \<and> lookup3 (fareBoard d') org dst tm = Some (f\<lparr>taxi := int win\<rparr>)
           \<and> (\<forall>y \<in> set (bidders f). map_of (fareAmountConstraint d) y = None \<longrightarrow>
                 bidderTime w d (getNode w org) win \<le> bidderTime w d (getNode w org) y)"
proof -
  let ?bs = "bidders f"
  let ?new = "filter (\<lambda>i. map_of (fareAmountConstraint d) i = None) ?bs"
  let ?g = "bidderTime w d (Some n)"
  have range: "\<forall>b \<in> set ?bs. b < length (taxis d)"
    using silent by (rule guardBidders_in_range)
  have newne: "?new \<noteq> []" using ft by (auto simp: filter_empty_conv)
  from min_key_timesFor[OF newne, of ?g] obtain win where
    win: "min_key (timesFor ?g ?new []) = Inr win" "win \<in> set ?new" "\<forall>y \<in> set ?new. ?g win \<le> ?g y"
    by blast
  have "chooseAmong w d (Some n) ?bs = Inr win"
    using win(1) timesFor_nonempty[OF newne, of ?g "[]"]
    by (simp add: chooseAmong_def splitBidders_eq[OF range])
  then have "allocateFare w d org dst tm = commitFare d org dst tm (int win)"
    using entry node silent many by (intro allocateFare_multi)
  moreover have "win < length (taxis d)" using win(2) range by simp
  ultimately obtain d' where "allocateFare w d org dst tm = Done d'"
      "lookup3 (fareBoard d') org dst tm = Some (f\<lparr>taxi := int win\<rparr>)"
    using commitFare_done[OF _ entry, of win] by auto
  then show ?thesis using win(2,3) node by auto
qed

subsection \<open>A taxi known only from handovers\<close>

text \<open>
  The loop of lines 252 to 260 files a bidder without a count under \<open>initialFares\<close> and
  not under \<open>constraintFares\<close>, wherever it stands among the bidders; and as soon as one
  bidder has no count, the fare goes to a bidder without a count whose travel time is the
  least among those. This holds in every state, so in every state after a handover in
  which the taxi still has no count.
\<close>

lemma splitBidders_first_timer:
  assumes range: "\<forall>x \<in> set bs. x < length (taxis d)"
    and i: "i \<in> set bs" "map_of (fareAmountConstraint d) i = None"
  shows "\<exists>constraintFares initialFares.
           splitBidders w d fareNode bs ([], []) = Inr (constraintFares, initialFares)
           \<and> i \<in> fst ` set initialFares \<and> i \<notin> fst ` set constraintFares
           \<and> map_of initialFares i = Some (bidderTime w d fareNode i)"
proof -
  let ?g = "bidderTime w d fareNode"
  let ?old = "filter (\<lambda>i. map_of (fareAmountConstraint d) i \<noteq> None) bs"
  let ?new = "filter (\<lambda>i. map_of (fareAmountConstraint d) i = None) bs"
  have "splitBidders w d fareNode bs ([], []) = Inr (timesFor ?g ?old [], timesFor ?g ?new [])"
    by (rule splitBidders_eq[OF range])
  moreover have "i \<in> fst ` set (timesFor ?g ?new [])"
    using i by (simp add: keys_timesFor)
  moreover have "i \<notin> fst ` set (timesFor ?g ?old [])"
    using i by (simp add: keys_timesFor)
  moreover have "map_of (timesFor ?g ?new []) i = Some (?g i)"
    using i by (simp add: map_of_timesFor)
  ultimately show ?thesis by blast
qed

lemma chooseAmong_first_timer:
  assumes range: "\<forall>x \<in> set bs. x < length (taxis d)"
    and i: "i \<in> set bs" "map_of (fareAmountConstraint d) i = None"
  shows "\<exists>win. chooseAmong w d fareNode bs = Inr win
           \<and> win \<in> set bs \<and> map_of (fareAmountConstraint d) win = None
           \<and> (\<forall>y \<in> set bs. map_of (fareAmountConstraint d) y = None \<longrightarrow>
                 bidderTime w d fareNode win \<le> bidderTime w d fareNode y)"
proof -
  let ?new = "filter (\<lambda>i. map_of (fareAmountConstraint d) i = None) bs"
  let ?g = "bidderTime w d fareNode"
  have newne: "?new \<noteq> []" using i by (auto simp: filter_empty_conv)
  from min_key_timesFor[OF newne, of ?g] obtain win where
    win: "min_key (timesFor ?g ?new []) = Inr win" "win \<in> set ?new" "\<forall>y \<in> set ?new. ?g win \<le> ?g y"
    by blast
  have "chooseAmong w d fareNode bs = Inr win"
    using win(1) timesFor_nonempty[OF newne, of ?g "[]"]
    by (simp add: chooseAmong_def splitBidders_eq[OF range])
  then show ?thesis using win(2,3) by auto
qed

text \<open>
  Only the commit of an allocation writes the dictionary of counts: every other method
  leaves it as it is, and so does any number of handovers.
\<close>

lemma ledger_frame:
  "fareAmountConstraint (addTaxi d tx) = fareAmountConstraint d"
  "fareAmountConstraint (fareBid d org tx) = fareAmountConstraint d"
  "fareAmountConstraint (recvPayment d p amount) = fareAmountConstraint d"
  "fareAmountConstraint (stateOf (cancelFare d p org dst tm)) = fareAmountConstraint d"
  by (simp_all add: addTaxi_def fareBid_def recvPayment_def cancelFare_def
      split: option.splits sum.splits)

lemma handover_index:
  assumes "parent d = p"
  shows "list_index (taxis (handover d p org dst tm tx pr)) tx
           < length (taxis (handover d p org dst tm tx pr))"
    and "taxis (handover d p org dst tm tx pr)
           ! list_index (taxis (handover d p org dst tm tx pr)) tx = tx"
  using handover_known[OF assms, of tx org dst tm pr]
  by (rule list_index_less, rule list_index_nth)

lemma handovers_ledger:
  "fareAmountConstraint
     (foldl (\<lambda>d (p, org, dst, tm, tx, pr). handover d p org dst tm tx pr) d hs)
   = fareAmountConstraint d"
  by (induction hs arbitrary: d) (auto simp: handover_ledger)

text \<open>
  In a dispatcher that has only ever received handovers nobody has a count: every bidder
  is filed under \<open>initialFares\<close>.
\<close>

lemma only_handovers_all_first_timers:
  assumes "d = foldl (\<lambda>d (p, org, dst, tm, tx, pr). handover d p org dst tm tx pr)
                 (initDispatcher p0) hs"
    and "\<forall>b \<in> set bs. b < length (taxis d)"
  shows "\<exists>initialFares. splitBidders w d fareNode bs ([], []) = Inr ([], initialFares)
           \<and> fst ` set initialFares = set bs"
proof -
  have "fareAmountConstraint d = []"
    unfolding assms(1) by (simp add: handovers_ledger initDispatcher_def)
  then have "splitBidders w d fareNode bs ([], [])
      = Inr ([], timesFor (bidderTime w d fareNode) bs [])"
    by (simp add: splitBidders_eq[OF assms(2)])
  then show ?thesis by (simp add: keys_timesFor)
qed

text \<open>
  C10. A handover never touches \<open>fareAmountConstraint\<close>. When it comes from the
  dispatcher's own world it sets the entry's \<open>taxi\<close> to the index of the taxi and the
  price as given. If that index had no count before, it has none after, and then for
  every list of bidders in range that holds the index, the loop that splits the bidders
  puts it among those that have never taken a fare (\<open>initialFares\<close>) and not among the
  others, and the choice among the bidders goes to a bidder without a count whose travel
  time is no larger than that of the taxi handed over.
\<close>

theorem handover_leaves_ledger:
  "fareAmountConstraint (handover d p org dst tm tx pr) = fareAmountConstraint d
   \<and> (parent d = p \<longrightarrow>
        lookup3 (fareBoard (handover d p org dst tm tx pr)) org dst tm
          = Some \<lparr>origin = org, destination = dst, calltime = tm, price = pr,
              taxi = int (list_index (taxis (handover d p org dst tm tx pr)) tx), bidders = []\<rparr>
        \<and> taxis (handover d p org dst tm tx pr)
              ! list_index (taxis (handover d p org dst tm tx pr)) tx = tx
        \<and> (map_of (fareAmountConstraint d)
              (list_index (taxis (handover d p org dst tm tx pr)) tx) = None \<longrightarrow>
            (\<forall>bs. list_index (taxis (handover d p org dst tm tx pr)) tx \<in> set bs
                  \<and> (\<forall>b \<in> set bs. b < length (taxis (handover d p org dst tm tx pr))) \<longrightarrow>
               (\<exists>constraintFares initialFares.
                  splitBidders w (handover d p org dst tm tx pr) fareNode bs ([], [])
                    = Inr (constraintFares, initialFares)
                  \<and> list_index (taxis (handover d p org dst tm tx pr)) tx \<in> fst ` set initialFares
                  \<and> list_index (taxis (handover d p org dst tm tx pr)) tx
                      \<notin> fst ` set constraintFares)
               \<and> (\<exists>win. chooseAmong w (handover d p org dst tm tx pr) fareNode bs = Inr win
                     \<and> map_of (fareAmountConstraint (handover d p org dst tm tx pr)) win = None
                     \<and> bidderTime w (handover d p org dst tm tx pr) fareNode win
                         \<le> bidderTime w (handover d p org dst tm tx pr) fareNode
                              (list_index (taxis (handover d p org dst tm tx pr)) tx)))))"
proof -
  let ?d' = "handover d p org dst tm tx pr"
  let ?i = "list_index (taxis ?d') tx"
  have led: "fareAmountConstraint ?d' = fareAmountConstraint d"
    by (rule handover_ledger)
  have cls: "(\<exists>constraintFares initialFares.
                splitBidders w ?d' fareNode bs ([], []) = Inr (constraintFares, initialFares)
                \<and> ?i \<in> fst ` set initialFares \<and> ?i \<notin> fst ` set constraintFares)
             \<and> (\<exists>win. chooseAmong w ?d' fareNode bs = Inr win
                   \<and> map_of (fareAmountConstraint ?d') win = None
                   \<and> bidderTime w ?d' fareNode win \<le> bidderTime w ?d' fareNode ?i)"
    if none: "map_of (fareAmountConstraint d) ?i = None"
      and mem: "?i \<in> set bs" and range: "\<forall>b \<in> set bs. b < length (taxis ?d')"
    for bs
  proof -
    have none': "map_of (fareAmountConstraint ?d') ?i = None" using none led by simp
    from splitBidders_first_timer[OF range mem none', of w fareNode]
    have a: "\<exists>constraintFares initialFares.
                splitBidders w ?d' fareNode bs ([], []) = Inr (constraintFares, initialFares)
                \<and> ?i \<in> fst ` set initialFares \<and> ?i \<notin> fst ` set constraintFares"
      by blast
    from chooseAmong_first_timer[OF range mem none', of w fareNode] obtain win where
      "chooseAmong w ?d' fareNode bs = Inr win" "map_of (fareAmountConstraint ?d') win = None"
      "\<forall>y \<in> set bs. map_of (fareAmountConstraint ?d') y = None \<longrightarrow>
          bidderTime w ?d' fareNode win \<le> bidderTime w ?d' fareNode y"
      by blast
    then have "\<exists>win. chooseAmong w ?d' fareNode bs = Inr win
                   \<and> map_of (fareAmountConstraint ?d') win = None
                   \<and> bidderTime w ?d' fareNode win \<le> bidderTime w ?d' fareNode ?i"
      using mem none' by blast
    with a show ?thesis by blast
  qed
  show ?thesis
    using led handover_entry[of d p org dst tm tx pr] handover_index(2)[where d = d and p = p and tx = tx and org = org and dst = dst and tm = tm and pr = pr] cls
    by blast
qed

text \<open>The state after a handover to a dispatcher that knows one other taxi, computed.\<close>

lemma handedOver_eval:
  "handedOver = \<lparr>parent = 0, revenue = 0, taxis = [8, 7],
      fareBoard = [((0, 0), [((3, 0), [(1, \<lparr>origin = (0, 0), destination = (3, 0), calltime = 1,
         price = 10, taxi = 1, bidders = []\<rparr>)])])],
      fareAmountConstraint = [], calls = []\<rparr>"
  by (simp add: handedOver_def handover_def newFare_def initDispatcher_def addTaxi_def Let_def
      modEntry_def list_index_def)

theorem handover_leaves_ledger_witness:
  "parent (addTaxi (initDispatcher 0) 8) = 0
   \<and> map_of (fareAmountConstraint (addTaxi (initDispatcher 0) 8))
        (list_index (taxis handedOver) 7) = None
   \<and> list_index (taxis handedOver) 7 \<in> set [0, 1]
   \<and> fareAmountConstraint handedOver = fareAmountConstraint (addTaxi (initDispatcher 0) 8)
   \<and> lookup3 (fareBoard handedOver) (0, 0) (3, 0) 1
       = Some \<lparr>origin = (0, 0), destination = (3, 0), calltime = 1, price = 10,
           taxi = int (list_index (taxis handedOver) 7), bidders = []\<rparr>
   \<and> (\<exists>constraintFares initialFares.
         splitBidders (lineWorld (\<lambda>t. (1, 0)) (\<lambda>t. [])) handedOver (Some 0) [0, 1] ([], [])
           = Inr (constraintFares, initialFares)
         \<and> list_index (taxis handedOver) 7 \<in> fst ` set initialFares
         \<and> list_index (taxis handedOver) 7 \<notin> fst ` set constraintFares)
   \<and> (\<exists>win. chooseAmong (lineWorld (\<lambda>t. (1, 0)) (\<lambda>t. [])) handedOver (Some 0) [0, 1] = Inr win
         \<and> map_of (fareAmountConstraint handedOver) win = None)"
proof -
  have p: "parent (addTaxi (initDispatcher 0) 8) = 0"
    by (simp add: initDispatcher_def addTaxi_def)
  have m: "map_of (fareAmountConstraint (addTaxi (initDispatcher 0) 8))
      (list_index (taxis handedOver) 7) = None"
    by (simp add: initDispatcher_def addTaxi_def)
  have mem: "list_index (taxis handedOver) 7 \<in> set [0, 1]"
    by (simp add: handedOver_eval list_index_def)
  have range: "\<forall>b \<in> set [0, 1]. b < length (taxis handedOver)"
    by (simp add: handedOver_eval)
  note t = handover_leaves_ledger[of "addTaxi (initDispatcher 0) 8" 0 "(0, 0)" "(3, 0)" 1 7 10
      "lineWorld (\<lambda>t. (1, 0)) (\<lambda>t. [])" "Some 0", folded handedOver_def]
  from t p m mem range show ?thesis by blast
qed

subsection \<open>Bidders that all have a count\<close>

text \<open>
  The choice of lines 266 to 290, for whatever node the stuck-taxi loop has left in
  \<open>fareNode\<close>. The least value of the dictionary of counts is found first.
\<close>

lemma min_value_least:
  assumes "al \<noteq> []"
  shows "\<exists>m. min_value al = Inr m \<and> m \<in> snd ` set al \<and> (\<forall>v \<in> snd ` set al. m \<le> v)"
proof -
  obtain kv rest where al: "al = kv # rest" using assms by (cases al) auto
  have m: "min_value al = Inr (Min (set (snd kv # map snd rest)))"
    by (simp only: min_value_def al list.case Min.set_eq_fold)
  have s: "set (snd kv # map snd rest) = snd ` set al" by (simp add: al)
  have "Min (snd ` set al) \<in> snd ` set al" "\<forall>v \<in> snd ` set al. Min (snd ` set al) \<le> v"
    using assms by (auto intro: Min_in)
  then show ?thesis using m s by simp
qed

text \<open>
  Two bidders share a count, every other bidder has a larger one, and the shared count is
  the least of the whole dictionary: one of the two is chosen, and the other of the two
  has no smaller travel time.
\<close>

lemma chooseAmong_tie_break:
  assumes range: "\<forall>x \<in> set bs. x < length (taxis d)"
    and dl: "distinct (map fst (fareAmountConstraint d))"
    and ab: "a \<in> set bs" "b \<in> set bs" "a \<noteq> b"
    and counts: "map_of (fareAmountConstraint d) a = Some c" "map_of (fareAmountConstraint d) b = Some c"
    and others: "\<forall>x \<in> set bs. x \<noteq> a \<and> x \<noteq> b \<longrightarrow>
                   (\<exists>cx. map_of (fareAmountConstraint d) x = Some cx \<and> c < cx)"
    and glob: "min_value (fareAmountConstraint d) = Inr c"
  shows "\<exists>win. chooseAmong w d fareNode bs = Inr win
           \<and> (win = a \<or> win = b)
           \<and> bidderTime w d fareNode win \<le> bidderTime w d fareNode a
           \<and> bidderTime w d fareNode win \<le> bidderTime w d fareNode b"
proof -
  let ?L = "fareAmountConstraint d"
  let ?g = "bidderTime w d fareNode"
  let ?cf = "timesFor ?g bs []"
  let ?low = "map fst (filter (\<lambda>(i, j). j = c) ?L)"
  have vet: "map_of ?L x \<noteq> None" if "x \<in> set bs" for x
    using that counts others by (cases "x = a \<or> x = b") auto
  have f1: "filter (\<lambda>i. map_of ?L i \<noteq> None) bs = bs"
    using vet by (simp add: filter_id_conv)
  have f2: "filter (\<lambda>i. map_of ?L i = None) bs = []"
    using vet by (simp add: filter_empty_conv)
  have split: "splitBidders w d fareNode bs ([], []) = Inr (?cf, [])"
    by (simp only: splitBidders_eq[OF range] f1 f2 timesFor_simps)
  define vb where "vb = filter (\<lambda>x. x \<in> set ?low) (map fst ?cf)"
  have low: "x \<in> set ?low \<longleftrightarrow> map_of ?L x = Some c" for x
    using dl by (auto simp: image_iff)
  have keys: "set (map fst ?cf) = set bs"
    using keys_timesFor[of ?g bs "[]"] by simp
  have vbset: "set vb = {a, b}"
  proof -
    have "set vb = {x \<in> set bs. map_of ?L x = Some c}"
      unfolding vb_def using keys low by auto
    also have "\<dots> = {a, b}"
      using ab counts others by fastforce
    finally show ?thesis .
  qed
  have vbdist: "distinct vb"
    unfolding vb_def by (intro distinct_filter distinct_timesFor) simp
  have vblen: "length vb = 2"
    using distinct_card[OF vbdist] vbset ab(3) by simp
  then have vbne: "vb \<noteq> []" by auto
  have vbrange: "\<forall>i \<in> set vb. i < length (taxis d)"
    using range ab(1,2) vbset by simp
  from min_key_timesFor[OF vbne, of ?g] obtain win where
    win: "min_key (timesFor ?g vb []) = Inr win" "win \<in> set vb" "\<forall>y \<in> set vb. ?g win \<le> ?g y"
    by blast
  have winab: "win = a \<or> win = b" using win(2) vbset by simp
  have le: "?g win \<le> ?g a" "?g win \<le> ?g b"
    using win(3) vbset by simp_all
  have "chooseAmong w d fareNode bs = Inr win"
    unfolding chooseAmong_def
    by (simp only: split glob sum.case prod.case Let_def flip: vb_def)
      (simp add: travelTimesOf_eq[OF vbrange] vblen win(1))
  then show ?thesis using winab le by blast
qed

text \<open>
  Line 290: when every bidder's count is above the least count of the dictionary, a bidder
  with the least travel time among all bidders is chosen, whatever the counts.
\<close>

lemma chooseAmong_fallback:
  assumes range: "\<forall>x \<in> set bs. x < length (taxis d)"
    and dl: "distinct (map fst (fareAmountConstraint d))"
    and bsne: "bs \<noteq> []"
    and above: "\<forall>x \<in> set bs. \<exists>cx. map_of (fareAmountConstraint d) x = Some cx \<and> c < cx"
    and glob: "min_value (fareAmountConstraint d) = Inr c"
  shows "\<exists>win. chooseAmong w d fareNode bs = Inr win \<and> win \<in> set bs
           \<and> (\<forall>y \<in> set bs. bidderTime w d fareNode win \<le> bidderTime w d fareNode y)"
proof -
  let ?L = "fareAmountConstraint d"
  let ?g = "bidderTime w d fareNode"
  let ?cf = "timesFor ?g bs []"
  let ?low = "map fst (filter (\<lambda>(i, j). j = c) ?L)"
  define vb where "vb = filter (\<lambda>x. x \<in> set ?low) (map fst ?cf)"
  have f1: "filter (\<lambda>i. map_of ?L i \<noteq> None) bs = bs"
    using above by (auto simp: filter_id_conv)
  have f2: "filter (\<lambda>i. map_of ?L i = None) bs = []"
    using above by (auto simp: filter_empty_conv)
  have split: "splitBidders w d fareNode bs ([], []) = Inr (?cf, [])"
    by (simp only: splitBidders_eq[OF range] f1 f2 timesFor_simps)
  have low: "x \<in> set ?low \<longleftrightarrow> map_of ?L x = Some c" for x
    using dl by (auto simp: image_iff)
  have keys: "set (map fst ?cf) = set bs"
    using keys_timesFor[of ?g bs "[]"] by simp
  have "set vb = {x \<in> set bs. map_of ?L x = Some c}"
    unfolding vb_def using keys low by auto
  also have "\<dots> = {}" using above by fastforce
  finally have vbnil: "vb = []" by simp
  from min_key_timesFor[OF bsne, of ?g] obtain win where
    win: "min_key ?cf = Inr win" "win \<in> set bs" "\<forall>y \<in> set bs. ?g win \<le> ?g y"
    by blast
  have "chooseAmong w d fareNode bs = Inr win"
    unfolding chooseAmong_def
    by (simp only: split glob sum.case prod.case Let_def flip: vb_def)
      (simp add: vbnil win(1))
  then show ?thesis using win(2,3) by blast
qed

text \<open>
  When the two bidders that share a count are the only bidders, one of them with the least
  travel time is chosen, whether or not their count is the least of the dictionary.
\<close>

lemma chooseAmong_two_veterans:
  assumes range: "\<forall>x \<in> set bs. x < length (taxis d)"
    and dl: "distinct (map fst (fareAmountConstraint d))"
    and two: "set bs = {a, b}" "a \<noteq> b"
    and counts: "map_of (fareAmountConstraint d) a = Some c" "map_of (fareAmountConstraint d) b = Some c"
  shows "\<exists>win. chooseAmong w d fareNode bs = Inr win
           \<and> (win = a \<or> win = b)
           \<and> bidderTime w d fareNode win \<le> bidderTime w d fareNode a
           \<and> bidderTime w d fareNode win \<le> bidderTime w d fareNode b"
proof -
  let ?L = "fareAmountConstraint d"
  have Lne: "?L \<noteq> []" using counts(1) by auto
  from min_value_least[OF Lne] obtain m where
    m: "min_value ?L = Inr m" "\<forall>v \<in> snd ` set ?L. m \<le> v"
    by blast
  have "(a, c) \<in> set ?L" using counts(1) by (rule map_of_SomeD)
  then have "c \<in> snd ` set ?L" by force
  then have mc: "m \<le> c" using m(2) by blast
  show ?thesis
  proof (cases "m = c")
    case True
    have "\<forall>x \<in> set bs. x \<noteq> a \<and> x \<noteq> b \<longrightarrow> (\<exists>cx. map_of ?L x = Some cx \<and> c < cx)"
      using two(1) by simp
    moreover have "a \<in> set bs" "b \<in> set bs" using two(1) by simp_all
    ultimately show ?thesis
      using range dl two(2) counts m(1) True by (intro chooseAmong_tie_break) simp_all
  next
    case False
    then have "m < c" using mc by simp
    then have above: "\<forall>x \<in> set bs. \<exists>cx. map_of ?L x = Some cx \<and> m < cx"
      using two(1) counts by auto
    have bsne: "bs \<noteq> []" using two(1) by auto
    from chooseAmong_fallback[OF range dl bsne above m(1), of w fareNode] obtain win where
      "chooseAmong w d fareNode bs = Inr win" "win \<in> set bs"
      "\<forall>y \<in> set bs. bidderTime w d fareNode win \<le> bidderTime w d fareNode y"
      by blast
    then show ?thesis using two(1) by auto
  qed
qed

text \<open>
  C4. Among bidders that all have a count, when two share a count and every other bidder
  has a larger one, the fare is to go to the one of the two with the smaller travel time
  to the origin, whether or not the shared count is the least count of the dictionary.
  The comment on line 288 says the same of the fallback: it takes the taxi with the
  lowest fare amount among the bidders. The code of line 290 takes the least travel time
  instead. Taxi 6 (index 0) has won one fare and does not bid. Bidders 1 and 2 have won
  two fares each, bidder 3 has won five and stands one step from the origin, nearer than
  both. No bidder has the least count, and the fare goes to bidder 3.
\<close>

theorem allocateFare_fallback_ignores_counts:
  "allocateFare
     (lineWorld (\<lambda>t. if t = 7 then (5, 0) else if t = 8 then (4, 0)
                      else if t = 9 then (1, 0) else (8, 0)) (\<lambda>t. []))
     (biddingState [6, 7, 8, 9] [1, 2, 3] [(0, 1), (1, 2), (2, 2), (3, 5)]) (0, 0) (3, 0) 1
   = Done ((biddingState [6, 7, 8, 9] [1, 2, 3] [(0, 1), (1, 2), (2, 2), (3, 5)])
       \<lparr>fareBoard := boardOf ((pricedFare [1, 2, 3])\<lparr>taxi := 3\<rparr>),
        calls := [BroadcastFare (0, 0) (3, 0) (88 / 3), AllocateFare (0, 0) 9],
        fareAmountConstraint := [(0, 1), (1, 2), (2, 2), (3, 6)]\<rparr>)"
  by (simp add: allocation_eval)

end
